theory Spec2Isabelle
  imports Complex_Main "HOL-Library.Multiset" "HOL-Library.Signed_Division"
begin

section \<open>Package stairs: weighted random selection through a cumulative array\<close>

text \<open>
  The Go package \<^verbatim>\<open>stairs\<close> (file \<^verbatim>\<open>stairs.go\<close>) turns a slice of weighted items into
  a closure that draws the \<^verbatim>\<open>Index\<close> field of an item at random.  \<^verbatim>\<open>BuildCDF\<close>
  sorts the slice in place, replaces the weights by running sums and returns the closure
  \<^verbatim>\<open>searchCDF\<close>, which picks a random number and runs a binary search over the slice.

  Conventions of the embedding:
  \<^item> a slice is a list; since \<^verbatim>\<open>BuildCDF\<close> mutates the caller's slice in place, the model
    returns the slice as the call leaves it, next to the Go result;
  \<^item> Go's \<^verbatim>\<open>int\<close> is taken to be 64 bits wide: a weight is an \<open>int\<close> and the addition
    of the accumulation loop wraps around (\<open>wrap64\<close>); positions in the slice are \<open>int\<close>
    too, and every indexing is checked against the bounds, as Go does;
  \<^item> Go's \<^verbatim>\<open>float64\<close> is the type \<open>float64\<close>: NaN or a finite value.  Every comparison
    with NaN is false and every operation on NaN gives NaN, as in Go; a finite value is a
    real number with exact arithmetic (rounding and the infinities are not modelled);
  \<^item> \<^verbatim>\<open>sort.Sort\<close> and the generator of \<^verbatim>\<open>math/rand\<close> belong to Go's standard
    library.  The sorting function is a parameter of \<^verbatim>\<open>BuildCDF\<close>, constrained by the
    contract of \<^verbatim>\<open>sort.Sort\<close> (an unstable sort: the result is a permutation in ascending
    order of \<^verbatim>\<open>Less\<close>, when \<^verbatim>\<open>Less\<close> is an ordering of the elements).  For the integer
    variant the generator is represented by the raw natural number it yields for the call at
    hand, from which \<open>Intn\<close> derives its documented result; for the floating-point variant it
    is represented by the value that \<^verbatim>\<open>r.Float64()\<close> returns, any real number from 0 up to,
    not including, 1;
  \<^item> a run-time panic is a value of type \<open>panic\<close>; a loop that might not return is a
    partial function into \<open>option\<close>, where \<open>None\<close> stands for a loop that runs forever.
\<close>

subsection \<open>Types\<close>

record WeightedItem =
  Weight :: int
  Index :: int

type_synonym WeightedItems = "WeightedItem list"

text \<open>
  A \<^verbatim>\<open>float64\<close>: NaN or a finite value.  \<^verbatim>\<open><\<close> and \<^verbatim>\<open><=\<close> are false when an operand is
  NaN (so \<open>\<not> a \<le> b\<close> does not give \<open>b < a\<close>); \<^verbatim>\<open>+\<close>, \<^verbatim>\<open>-\<close>, \<^verbatim>\<open>*\<close> and \<^verbatim>\<open>math.Abs\<close> give
  NaN when an operand is NaN.
\<close>

datatype float64 = NaN | Finite real

instantiation float64 :: "{zero, one, ord, plus, minus, times, abs}"
begin

definition zero_float64 :: float64 where
  "zero_float64 = Finite 0"

definition one_float64 :: float64 where
  "one_float64 = Finite 1"

definition less_float64 :: "float64 \<Rightarrow> float64 \<Rightarrow> bool" where
  "less_float64 a b = (case (a, b) of (Finite x, Finite y) \<Rightarrow> x < y | _ \<Rightarrow> False)"

definition less_eq_float64 :: "float64 \<Rightarrow> float64 \<Rightarrow> bool" where
  "less_eq_float64 a b = (case (a, b) of (Finite x, Finite y) \<Rightarrow> x \<le> y | _ \<Rightarrow> False)"

definition plus_float64 :: "float64 \<Rightarrow> float64 \<Rightarrow> float64" where
  "plus_float64 a b = (case (a, b) of (Finite x, Finite y) \<Rightarrow> Finite (x + y) | _ \<Rightarrow> NaN)"

definition minus_float64 :: "float64 \<Rightarrow> float64 \<Rightarrow> float64" where
  "minus_float64 a b = (case (a, b) of (Finite x, Finite y) \<Rightarrow> Finite (x - y) | _ \<Rightarrow> NaN)"

definition times_float64 :: "float64 \<Rightarrow> float64 \<Rightarrow> float64" where
  "times_float64 a b = (case (a, b) of (Finite x, Finite y) \<Rightarrow> Finite (x * y) | _ \<Rightarrow> NaN)"

definition abs_float64 :: "float64 \<Rightarrow> float64" where
  "abs_float64 a = (case a of Finite x \<Rightarrow> Finite \<bar>x\<bar> | NaN \<Rightarrow> NaN)"

instance ..

end

record WeightedItemFloat =
  Weight :: float64
  Index :: int

type_synonym WeightedItemsFloat = "WeightedItemFloat list"

definition EPSILON :: float64 where
  "EPSILON = Finite (1 / 100000)"

definition tooShortErr :: string where
  "tooShortErr = ''Array of items must be longer than 0.''"

definition zeroWeightErr :: string where
  "zeroWeightErr = ''All items must have a positive weight.''"

text \<open>The value made by \<^verbatim>\<open>errors.New\<close>: an error carrying its message.\<close>

datatype error = New string

datatype panic = IndexOutOfRange | InvalidArgumentToIntn

text \<open>What a call of the closure gives: a panic or the returned index; \<open>None\<close> if the loop never ends.\<close>

type_synonym draw = "(panic + int) option"

subsection \<open>The sort interface and \<^verbatim>\<open>sort.Sort\<close>\<close>

text \<open>\<^verbatim>\<open>Less(i, j)\<close> compares the weights of the items at the two positions.\<close>

definition Less :: "WeightedItem \<Rightarrow> WeightedItem \<Rightarrow> bool" where
  "Less a b = (WeightedItem.Weight a < WeightedItem.Weight b)"

definition LessFloat :: "WeightedItemFloat \<Rightarrow> WeightedItemFloat \<Rightarrow> bool" where
  "LessFloat a b = (WeightedItemFloat.Weight a < WeightedItemFloat.Weight b)"

text \<open>
  The contract of \<^verbatim>\<open>sort.Sort\<close>: the slice is permuted, and afterwards no later element is
  \<^verbatim>\<open>Less\<close> than an earlier one.  Nothing is promised about the order of equal weights.
  On floating-point weights the order is promised only for a slice without NaN: with a NaN
  weight \<^verbatim>\<open>Less\<close> is no ordering, and \<^verbatim>\<open>sort.Sort\<close> still permutes the slice (it only
  calls \<^verbatim>\<open>Swap\<close>) but need not leave the smallest weight first.
\<close>

definition sort_contract :: "(WeightedItems \<Rightarrow> WeightedItems) \<Rightarrow> bool" where
  "sort_contract srt = (\<forall>s. mset (srt s) = mset s \<and> sorted_wrt (\<lambda>a b. \<not> Less b a) (srt s))"

definition sort_contract_float :: "(WeightedItemsFloat \<Rightarrow> WeightedItemsFloat) \<Rightarrow> bool" where
  "sort_contract_float srt =
     (\<forall>s. mset (srt s) = mset s \<and>
          ((\<forall>x\<in>set s. WeightedItemFloat.Weight x \<noteq> NaN)
             \<longrightarrow> sorted_wrt (\<lambda>a b. \<not> LessFloat b a) (srt s)))"

text \<open>
  What \<^verbatim>\<open>sort.Sort\<close> runs on a short slice (at most 12 elements; 6 in older releases of
  Go), the insertion sort of package \<^verbatim>\<open>sort\<close>:
  \<^verbatim>\<open>for i := a + 1; i < b; i++ { for j := i; j > a && data.Less(j, j-1); j-- { data.Swap(j, j-1) } }\<close>.
  \<open>sinkFloat x p\<close> is the inner loop: \<open>p\<close> holds the elements before position \<open>i\<close> in
  reverse, the one at \<open>i - 1\<close> first, and \<open>x\<close>, the element at \<open>i\<close>, is swapped down while it
  is \<^verbatim>\<open>Less\<close> than the element before it.
\<close>

fun sinkFloat :: "WeightedItemFloat \<Rightarrow> WeightedItemsFloat \<Rightarrow> WeightedItemsFloat" where
  "sinkFloat x [] = [x]"
| "sinkFloat x (y # p) = (if LessFloat x y then y # sinkFloat x p else x # y # p)"

definition insertionSortFloat :: "WeightedItemsFloat \<Rightarrow> WeightedItemsFloat" where
  "insertionSortFloat s = rev (foldl (\<lambda>p x. sinkFloat x p) [] s)"

subsection \<open>Machine arithmetic and the random generator\<close>

text \<open>Two's complement wrap-around of a 64-bit signed integer.\<close>

definition wrap64 :: "int \<Rightarrow> int" where
  "wrap64 x = (x + 2 ^ 63) mod 2 ^ 64 - 2 ^ 63"

text \<open>
  \<^verbatim>\<open>r.Intn(n)\<close> returns a number in the half-open interval from 0 to \<open>n\<close> and panics when
  \<open>n \<le> 0\<close>.  The argument \<open>r\<close> is the raw output of the generator.
\<close>

definition Intn :: "nat \<Rightarrow> int \<Rightarrow> panic + int" where
  "Intn r n = (if n \<le> 0 then Inl InvalidArgumentToIntn else Inr (int r mod n))"

subsection \<open>Integer weights: the closure \<^verbatim>\<open>searchCDF\<close>\<close>

text \<open>
  The \<^verbatim>\<open>for\<close> loop of the closure, with the bounds \<open>left\<close> and \<open>right\<close> as its state.
  Go's integer division truncates (\<open>sdiv\<close>).
\<close>

partial_function (option) searchLoop :: "WeightedItems \<Rightarrow> int \<Rightarrow> int \<Rightarrow> int \<Rightarrow> draw" where
  "searchLoop s num left right =
     (let m = (left + right) sdiv 2 in
      if m < 0 \<or> int (length s) \<le> m then Some (Inl IndexOutOfRange)
      else
        let valm = WeightedItem.Weight (s ! nat m) in
        if valm = num then Some (Inr (WeightedItem.Index (s ! nat m)))
        else if valm < num then
          (if m = int (length s) - 1 then Some (Inr (WeightedItem.Index (s ! nat m)))
           else if m + 1 < 0 \<or> int (length s) \<le> m + 1 then Some (Inl IndexOutOfRange)
           else if WeightedItem.Weight (s ! nat (m + 1)) > num
             then Some (Inr (WeightedItem.Index (s ! nat (m + 1))))
           else searchLoop s num (m + 1) right)
        else
          (if m = 0 then Some (Inr (WeightedItem.Index (s ! nat m)))
           else if m - 1 < 0 \<or> int (length s) \<le> m - 1 then Some (Inl IndexOutOfRange)
           else if WeightedItem.Weight (s ! nat (m - 1)) \<le> num
             then Some (Inr (WeightedItem.Index (s ! nat m)))
           else searchLoop s num left (m - 1)))"

declare searchLoop.simps [code]

text \<open>The binary search for a number that has been drawn: the closure from \<^verbatim>\<open>right := len(s) - 1\<close> on.\<close>

definition searchNum :: "WeightedItems \<Rightarrow> int \<Rightarrow> draw" where
  "searchNum s num = (let right = int (length s) - 1; left = 0 in searchLoop s num left right)"

text \<open>
  The closure: first the number \<^verbatim>\<open>num := r.Intn(s[len(s)-1].Weight) + 1\<close> (\<open>pickNum\<close>),
  then the search.  \<^verbatim>\<open>s[len(s)-1]\<close> panics on an empty slice.  The sum \<^verbatim>\<open>r.Intn(n) + 1\<close>
  is at most \<open>n\<close>, a machine integer, and so does not wrap.
\<close>

definition pickNum :: "WeightedItems \<Rightarrow> nat \<Rightarrow> panic + int" where
  "pickNum s r =
     (if length s = 0 then Inl IndexOutOfRange
      else case Intn r (WeightedItem.Weight (s ! (length s - 1))) of
             Inl p \<Rightarrow> Inl p
           | Inr k \<Rightarrow> Inr (k + 1))"

definition searchCDF :: "WeightedItems \<Rightarrow> nat \<Rightarrow> draw" where
  "searchCDF s r =
     (case pickNum s r of
        Inl p \<Rightarrow> Some (Inl p)
      | Inr num \<Rightarrow> searchNum s num)"

subsection \<open>Integer weights: \<^verbatim>\<open>BuildCDF\<close>\<close>

text \<open>
  The accumulation loop \<^verbatim>\<open>for i := 1; i < len(s); i++\<close>, from the value \<open>i\<close> of the loop
  variable on.  It returns the slice as the loop leaves it and the error, if any.
\<close>

function accumulate :: "nat \<Rightarrow> WeightedItems \<Rightarrow> WeightedItems \<times> error option" where
  "accumulate i s =
     (if i < length s then
        (if WeightedItem.Weight (s ! i) \<le> 0 then (s, Some (New zeroWeightErr))
         else accumulate (i + 1)
                (s[i := (s ! i)\<lparr>WeightedItem.Weight :=
                     wrap64 (WeightedItem.Weight (s ! i) + WeightedItem.Weight (s ! (i - 1)))\<rparr>]))
      else (s, None))"
  by pat_completeness auto
termination
  by (relation "measure (\<lambda>(i, s). length s - i)") auto

declare accumulate.simps [simp del]

text \<open>
  \<^verbatim>\<open>BuildCDF\<close>: the first component is the caller's slice after the call, the second the Go
  result, an error (and a nil function) or the closure over the slice (and a nil error).
\<close>

definition BuildCDF ::
    "(WeightedItems \<Rightarrow> WeightedItems) \<Rightarrow> WeightedItems \<Rightarrow> WeightedItems \<times> (error + (nat \<Rightarrow> draw))" where
  "BuildCDF srt s =
     (if length s \<le> 0 then (s, Inl (New tooShortErr))
      else
        let s1 = srt s in
        if WeightedItem.Weight (s1 ! 0) \<le> 0 then (s1, Inl (New zeroWeightErr))
        else case accumulate 1 s1 of
               (s2, Some e) \<Rightarrow> (s2, Inl e)
             | (s2, None) \<Rightarrow> (s2, Inr (searchCDF s2)))"

subsection \<open>Floating-point weights: the closure \<^verbatim>\<open>searchCDF\<close>\<close>

partial_function (option) searchLoopFloat ::
    "WeightedItemsFloat \<Rightarrow> float64 \<Rightarrow> int \<Rightarrow> int \<Rightarrow> draw" where
  "searchLoopFloat s num left right =
     (let m = (left + right) sdiv 2 in
      if m < 0 \<or> int (length s) \<le> m then Some (Inl IndexOutOfRange)
      else
        let valm = WeightedItemFloat.Weight (s ! nat m) in
        if \<bar>valm - num\<bar> \<le> EPSILON then Some (Inr (WeightedItemFloat.Index (s ! nat m)))
        else if valm < num then
          (if m = int (length s) - 1 then Some (Inr (WeightedItemFloat.Index (s ! nat m)))
           else if m + 1 < 0 \<or> int (length s) \<le> m + 1 then Some (Inl IndexOutOfRange)
           else if WeightedItemFloat.Weight (s ! nat (m + 1)) > num
             then Some (Inr (WeightedItemFloat.Index (s ! nat (m + 1))))
           else searchLoopFloat s num (m + 1) right)
        else
          (if m = 0 then Some (Inr (WeightedItemFloat.Index (s ! nat m)))
           else if m - 1 < 0 \<or> int (length s) \<le> m - 1 then Some (Inl IndexOutOfRange)
           else if WeightedItemFloat.Weight (s ! nat (m - 1)) \<le> num
             then Some (Inr (WeightedItemFloat.Index (s ! nat m)))
           else searchLoopFloat s num left (m - 1)))"

declare searchLoopFloat.simps [code]

definition searchNumFloat :: "WeightedItemsFloat \<Rightarrow> float64 \<Rightarrow> draw" where
  "searchNumFloat s num =
     (let right = int (length s) - 1; left = 0 in searchLoopFloat s num left right)"

text \<open>
  The number drawn by the closure, \<^verbatim>\<open>num := r.Float64()*(s[len(s)-1].Weight-1) + 1\<close>, and
  the closure.  The argument \<open>u\<close> is the value that \<^verbatim>\<open>r.Float64()\<close> returns for the call: a
  finite number, at least 0 and below 1 by the contract of \<^verbatim>\<open>math/rand\<close>.
\<close>

definition pickNumFloat :: "WeightedItemsFloat \<Rightarrow> real \<Rightarrow> panic + float64" where
  "pickNumFloat s u =
     (if length s = 0 then Inl IndexOutOfRange
      else Inr (Finite u * (WeightedItemFloat.Weight (s ! (length s - 1)) - 1) + 1))"

definition searchCDFFloat :: "WeightedItemsFloat \<Rightarrow> real \<Rightarrow> draw" where
  "searchCDFFloat s u =
     (case pickNumFloat s u of
        Inl p \<Rightarrow> Some (Inl p)
      | Inr num \<Rightarrow> searchNumFloat s num)"

subsection \<open>Floating-point weights: \<^verbatim>\<open>BuildCDF\<close>\<close>

text \<open>The accumulation loop of the floating-point variant; its check reads \<^verbatim>\<open>s[0]\<close>.\<close>

function accumulateFloat :: "nat \<Rightarrow> WeightedItemsFloat \<Rightarrow> WeightedItemsFloat \<times> error option" where
  "accumulateFloat i s =
     (if i < length s then
        (if WeightedItemFloat.Weight (s ! 0) \<le> 0 then (s, Some (New zeroWeightErr))
         else accumulateFloat (i + 1)
                (s[i := (s ! i)\<lparr>WeightedItemFloat.Weight :=
                     WeightedItemFloat.Weight (s ! i) + WeightedItemFloat.Weight (s ! (i - 1))\<rparr>]))
      else (s, None))"
  by pat_completeness auto
termination
  by (relation "measure (\<lambda>(i, s). length s - i)") auto

declare accumulateFloat.simps [simp del]

definition BuildCDFFloat ::
    "(WeightedItemsFloat \<Rightarrow> WeightedItemsFloat) \<Rightarrow> WeightedItemsFloat
       \<Rightarrow> WeightedItemsFloat \<times> (error + (real \<Rightarrow> draw))" where
  "BuildCDFFloat srt s =
     (if length s \<le> 0 then (s, Inl (New tooShortErr))
      else
        let s1 = srt s in
        if WeightedItemFloat.Weight (s1 ! 0) \<le> 0 then (s1, Inl (New zeroWeightErr))
        else case accumulateFloat 1 s1 of
               (s2, Some e) \<Rightarrow> (s2, Inl e)
             | (s2, None) \<Rightarrow> (s2, Inr (searchCDFFloat s2)))"

subsection \<open>Inputs of the test file\<close>

text \<open>
  \<^verbatim>\<open>buildWeightedArray\<close> and \<^verbatim>\<open>buildWeightedFloatArray\<close> of \<^verbatim>\<open>stairs_test.go\<close>: the
  weights 1, 2, 5 (1.5, 2.33, 5.8999) with the indices 0, 1, 2.
\<close>

definition buildWeightedArray :: WeightedItems where
  "buildWeightedArray = [WeightedItem.make 1 0, WeightedItem.make 2 1, WeightedItem.make 5 2]"

definition buildWeightedFloatArray :: WeightedItemsFloat where
  "buildWeightedFloatArray =
     [WeightedItemFloat.make (Finite (15 / 10)) 0, WeightedItemFloat.make (Finite (233 / 100)) 1,
      WeightedItemFloat.make (Finite (58999 / 10000)) 2]"

section \<open>Auxiliary facts\<close>

subsection \<open>Arithmetic and the sorting contract\<close>

lemma wrap64_id: "- (2 ^ 63) \<le> x \<Longrightarrow> x < 2 ^ 63 \<Longrightarrow> wrap64 x = x"
  by (simp add: wrap64_def)

lemma sort_contract_mset: "sort_contract srt \<Longrightarrow> mset (srt s) = mset s"
  by (simp add: sort_contract_def)

lemma sort_contract_length: "sort_contract srt \<Longrightarrow> length (srt s) = length s"
  by (metis sort_contract_mset size_mset)

lemma sort_contract_set: "sort_contract srt \<Longrightarrow> set (srt s) = set s"
  by (metis sort_contract_mset set_mset_mset)

lemma sort_contract_sorted: "sort_contract srt \<Longrightarrow> sorted (map WeightedItem.Weight (srt s))"
  by (simp add: sort_contract_def sorted_wrt_map Less_def not_less)

lemma sort_contract_weights:
  assumes "sort_contract srt"
  shows "map WeightedItem.Weight (srt s) = sort (map WeightedItem.Weight s)"
proof -
  have "mset (map WeightedItem.Weight (srt s)) = mset (map WeightedItem.Weight s)"
    using sort_contract_mset [OF assms, of s] by (metis mset_map)
  then show ?thesis
    using sort_contract_sorted [OF assms, of s] by (metis properties_for_sort)
qed

lemma sort_key_contract: "sort_contract (sort_key WeightedItem.Weight)"
proof -
  have "sorted_wrt (\<lambda>a b. \<not> Less b a) (sort_key WeightedItem.Weight s)" for s
    using sorted_sort_key [of WeightedItem.Weight s]
    by (simp add: sorted_wrt_map Less_def not_less)
  then show ?thesis by (simp add: sort_contract_def)
qed

lemma accumulate_length: "length (fst (accumulate i s)) = length s"
  by (induction i s rule: accumulate.induct) (subst accumulate.simps, simp)

lemma accumulate_Index:
  "map WeightedItem.Index (fst (accumulate i s)) = map WeightedItem.Index s"
proof (induction i s rule: accumulate.induct)
  case (1 i s)
  show ?case
  proof (cases "i < length s \<and> \<not> WeightedItem.Weight (s ! i) \<le> 0")
    case True
    then show ?thesis
      using "1.IH" by (subst accumulate.simps) (simp add: map_update list_update_same_conv)
  next
    case False
    then show ?thesis by (subst accumulate.simps) auto
  qed
qed

lemma accumulate_ok:
  "\<forall>j. i \<le> j \<and> j < length s \<longrightarrow> 0 < WeightedItem.Weight (s ! j) \<Longrightarrow> snd (accumulate i s) = None"
proof (induction i s rule: accumulate.induct)
  case (1 i s)
  show ?case
  proof (cases "i < length s")
    case True
    then have pos: "\<not> WeightedItem.Weight (s ! i) \<le> 0" using "1.prems" by auto
    have "snd (accumulate (i + 1) (s[i := (s ! i)\<lparr>WeightedItem.Weight :=
                     wrap64 (WeightedItem.Weight (s ! i) + WeightedItem.Weight (s ! (i - 1)))\<rparr>])) = None"
      using True pos "1.prems" by (intro "1.IH") auto
    then show ?thesis using True pos by (subst accumulate.simps) simp
  next
    case False
    then show ?thesis by (subst accumulate.simps) simp
  qed
qed

lemma accumulate_weights:
  "1 \<le> i \<Longrightarrow>
   \<forall>j. i \<le> j \<and> j < length s \<longrightarrow> 0 < WeightedItem.Weight (s ! j) \<Longrightarrow>
   0 < WeightedItem.Weight (s ! (i - 1)) \<Longrightarrow>
   WeightedItem.Weight (s ! (i - 1)) + (\<Sum>j = i..<length s. WeightedItem.Weight (s ! j)) < 2 ^ 63 \<Longrightarrow>
   k < length s \<Longrightarrow>
   WeightedItem.Weight (fst (accumulate i s) ! k) =
     (if k < i then WeightedItem.Weight (s ! k)
      else WeightedItem.Weight (s ! (i - 1)) + (\<Sum>j = i..k. WeightedItem.Weight (s ! j)))"
proof (induction i s rule: accumulate.induct)
  case (1 i s)
  show ?case
  proof (cases "i < length s")
    case False
    then show ?thesis using "1.prems" by (subst accumulate.simps) simp
  next
    case True
    let ?W = "WeightedItem.Weight"
    let ?v = "?W (s ! i) + ?W (s ! (i - 1))"
    let ?s' = "s[i := (s ! i)\<lparr>WeightedItem.Weight := wrap64 ?v\<rparr>]"
    have pos: "0 < ?W (s ! i)" using True "1.prems" by auto
    have split: "(\<Sum>j = i..<length s. ?W (s ! j)) = ?W (s ! i) + (\<Sum>j = Suc i..<length s. ?W (s ! j))"
      using True by (simp add: sum.atLeast_Suc_lessThan)
    have rest: "0 \<le> (\<Sum>j = Suc i..<length s. ?W (s ! j))"
      using "1.prems"(2) by (intro sum_nonneg) (simp add: less_imp_le)
    have v: "0 < ?v" "?v < 2 ^ 63"
      using pos "1.prems"(3,4) split rest by auto
    then have w: "wrap64 ?v = ?v" by (simp add: wrap64_id)
    have same: "(\<Sum>j = Suc i..<length s. ?W (?s' ! j)) = (\<Sum>j = Suc i..<length s. ?W (s ! j))"
      by (rule sum.cong) auto
    have IH: "?W (fst (accumulate (i + 1) ?s') ! k) =
        (if k < i + 1 then ?W (?s' ! k)
         else ?W (?s' ! (i + 1 - 1)) + (\<Sum>j = i + 1..k. ?W (?s' ! j)))"
    proof (rule "1.IH")
      show "i < length s" by (rule True)
      show "\<not> ?W (s ! i) \<le> 0" using pos by simp
      show "1 \<le> i + 1" by simp
      show "\<forall>j. i + 1 \<le> j \<and> j < length ?s' \<longrightarrow> 0 < ?W (?s' ! j)"
        using "1.prems"(2) by auto
      show "0 < ?W (?s' ! (i + 1 - 1))" using True v w by simp
      show "?W (?s' ! (i + 1 - 1)) + (\<Sum>j = i + 1..<length ?s'. ?W (?s' ! j)) < 2 ^ 63"
        using True w same "1.prems"(4) split by simp
      show "k < length ?s'" using "1.prems"(5) by simp
    qed
    have unf: "accumulate i s = accumulate (i + 1) ?s'"
      using True pos by (subst accumulate.simps) simp
    show ?thesis
    proof (cases "k < i")
      case True
      then show ?thesis using IH unf by simp
    next
      case ki: False
      show ?thesis
      proof (cases "k = i")
        case True
        then show ?thesis using IH unf w \<open>i < length s\<close> by simp
      next
        case False
        then have gt: "i < k" using ki by simp
        have "(\<Sum>j = i + 1..k. ?W (?s' ! j)) = (\<Sum>j = i + 1..k. ?W (s ! j))"
          by (rule sum.cong) auto
        moreover have "(\<Sum>j = i..k. ?W (s ! j)) = ?W (s ! i) + (\<Sum>j = i + 1..k. ?W (s ! j))"
          using gt by (simp add: sum.atLeast_Suc_atMost)
        ultimately show ?thesis using IH unf w gt \<open>i < length s\<close> by simp
      qed
    qed
  qed
qed

subsection \<open>The binary search of the integer variant\<close>

lemma sdiv2_nonneg: "0 \<le> (a::int) \<Longrightarrow> a sdiv 2 = a div 2"
  by (simp add: signed_divide_int_def sgn_if)

lemma searchLoop_returns:
  "0 \<le> l \<Longrightarrow> l \<le> r \<Longrightarrow> r < int (length s) \<Longrightarrow>
   l = 0 \<or> WeightedItem.Weight (s ! nat l) \<le> num \<Longrightarrow>
   r = int (length s) - 1 \<or> num < WeightedItem.Weight (s ! nat r) \<Longrightarrow>
   \<exists>q < length s. searchLoop s num l r = Some (Inr (WeightedItem.Index (s ! q)))"
proof (induction "nat (r - l)" arbitrary: l r rule: less_induct)
  case less
  define m where "m = (l + r) div 2"
  have m: "l \<le> m" "m \<le> r"
    using less.prems by (auto simp: m_def)
  have sd: "(l + r) sdiv 2 = m"
    using less.prems by (simp add: m_def sdiv2_nonneg)
  have inb: "0 \<le> m" "m < int (length s)" "nat m < length s"
    using m less.prems by auto
  show ?case
  proof (cases "WeightedItem.Weight (s ! nat m) = num")
    case True
    then have "searchLoop s num l r = Some (Inr (WeightedItem.Index (s ! nat m)))"
      using inb by (subst searchLoop.simps) (simp add: sd Let_def)
    then show ?thesis using inb by blast
  next
    case ne: False
    show ?thesis
    proof (cases "WeightedItem.Weight (s ! nat m) < num")
      case lt: True
      show ?thesis
      proof (cases "m = int (length s) - 1")
        case True
        then have "searchLoop s num l r = Some (Inr (WeightedItem.Index (s ! nat m)))"
          using inb ne lt by (subst searchLoop.simps) (simp add: sd Let_def)
        then show ?thesis using inb by blast
      next
        case notlast: False
        then have m1: "0 \<le> m + 1" "m + 1 < int (length s)" "nat (m + 1) < length s"
          using inb by auto
        show ?thesis
        proof (cases "num < WeightedItem.Weight (s ! nat (m + 1))")
          case True
          then have "searchLoop s num l r = Some (Inr (WeightedItem.Index (s ! nat (m + 1))))"
            using inb ne lt notlast m1 by (subst searchLoop.simps) (simp add: sd Let_def)
          then show ?thesis using m1 by blast
        next
          case False
          have "m \<noteq> r"
            using less.prems(5) lt notlast by auto
          then have mr: "m + 1 \<le> r" using m by simp
          have step: "searchLoop s num l r = searchLoop s num (m + 1) r"
            using inb ne lt notlast m1 False by (subst searchLoop.simps) (simp add: sd Let_def)
          have "\<exists>q < length s. searchLoop s num (m + 1) r = Some (Inr (WeightedItem.Index (s ! q)))"
          proof (rule less.hyps)
            show "nat (r - (m + 1)) < nat (r - l)" using m mr by simp
            show "0 \<le> m + 1" using inb by simp
            show "m + 1 \<le> r" by (rule mr)
            show "r < int (length s)" by (rule less.prems(3))
            show "m + 1 = 0 \<or> WeightedItem.Weight (s ! nat (m + 1)) \<le> num" using False by simp
            show "r = int (length s) - 1 \<or> num < WeightedItem.Weight (s ! nat r)" by (rule less.prems(5))
          qed
          then show ?thesis by (simp add: step)
        qed
      qed
    next
      case gt: False
      show ?thesis
      proof (cases "m = 0")
        case True
        then have "searchLoop s num l r = Some (Inr (WeightedItem.Index (s ! nat m)))"
          using inb ne gt by (subst searchLoop.simps) (simp add: sd Let_def)
        then show ?thesis using inb by blast
      next
        case notfirst: False
        then have m1: "0 \<le> m - 1" "m - 1 < int (length s)"
          using inb by auto
        show ?thesis
        proof (cases "WeightedItem.Weight (s ! nat (m - 1)) \<le> num")
          case True
          then have "searchLoop s num l r = Some (Inr (WeightedItem.Index (s ! nat m)))"
            using inb ne gt notfirst m1 by (subst searchLoop.simps) (simp add: sd Let_def)
          then show ?thesis using inb by blast
        next
          case False
          have "m \<noteq> l"
            using less.prems(4) ne gt notfirst by auto
          then have lm: "l \<le> m - 1" using m by simp
          have step: "searchLoop s num l r = searchLoop s num l (m - 1)"
            using inb ne gt notfirst m1 False by (subst searchLoop.simps) (simp add: sd Let_def)
          have "\<exists>q < length s. searchLoop s num l (m - 1) = Some (Inr (WeightedItem.Index (s ! q)))"
          proof (rule less.hyps)
            show "nat (m - 1 - l) < nat (r - l)" using m lm by simp
            show "0 \<le> l" by (rule less.prems(1))
            show "l \<le> m - 1" by (rule lm)
            show "m - 1 < int (length s)" by (rule m1(2))
            show "l = 0 \<or> WeightedItem.Weight (s ! nat l) \<le> num" by (rule less.prems(4))
            show "m - 1 = int (length s) - 1 \<or> num < WeightedItem.Weight (s ! nat (m - 1))"
              using False by simp
          qed
          then show ?thesis by (simp add: step)
        qed
      qed
    qed
  qed
qed

lemma searchNum_returns:
  "s \<noteq> [] \<Longrightarrow> \<exists>q < length s. searchNum s num = Some (Inr (WeightedItem.Index (s ! q)))"
  unfolding searchNum_def Let_def
  by (rule searchLoop_returns) (auto simp: Suc_leI)

text \<open>
  On a strictly increasing slice and for a number not above the last entry, the position
  returned has an entry at least the number, and the entry before it, if any, is at most
  the number.  The second comparison is not strict: when the number equals an entry, the
  search may return this position or the next.
\<close>

lemma strict_nth:
  "sorted_wrt (<) (map WeightedItem.Weight s) \<Longrightarrow> i < j \<Longrightarrow> j < length s \<Longrightarrow>
   WeightedItem.Weight (s ! i) < WeightedItem.Weight (s ! j)"
  using sorted_wrt_nth_less [of "(<)" "map WeightedItem.Weight s" i j] by simp

lemma searchLoop_band:
  "0 \<le> l \<Longrightarrow> l \<le> r \<Longrightarrow> r < int (length s) \<Longrightarrow>
   l = 0 \<or> WeightedItem.Weight (s ! nat l) \<le> num \<Longrightarrow>
   r = int (length s) - 1 \<or> num < WeightedItem.Weight (s ! nat r) \<Longrightarrow>
   sorted_wrt (<) (map WeightedItem.Weight s) \<Longrightarrow>
   num \<le> WeightedItem.Weight (s ! (length s - 1)) \<Longrightarrow>
   \<exists>q < length s. searchLoop s num l r = Some (Inr (WeightedItem.Index (s ! q)))
      \<and> num \<le> WeightedItem.Weight (s ! q)
      \<and> (q = 0 \<or> WeightedItem.Weight (s ! (q - 1)) \<le> num)"
proof (induction "nat (r - l)" arbitrary: l r rule: less_induct)
  case less
  let ?W = "WeightedItem.Weight"
  let ?res = "\<lambda>q. searchLoop s num l r = Some (Inr (WeightedItem.Index (s ! q)))
      \<and> num \<le> ?W (s ! q) \<and> (q = 0 \<or> ?W (s ! (q - 1)) \<le> num)"
  define m where "m = (l + r) div 2"
  have m: "l \<le> m" "m \<le> r"
    using less.prems by (auto simp: m_def)
  have sd: "(l + r) sdiv 2 = m"
    using less.prems by (simp add: m_def sdiv2_nonneg)
  have inb: "0 \<le> m" "m < int (length s)" "nat m < length s"
    using m less.prems by auto
  show ?case
  proof (cases "?W (s ! nat m) = num")
    case True
    then have "searchLoop s num l r = Some (Inr (WeightedItem.Index (s ! nat m)))"
      using inb by (subst searchLoop.simps) (simp add: sd Let_def)
    moreover have "nat m = 0 \<or> ?W (s ! (nat m - 1)) \<le> num"
    proof (cases "nat m = 0")
      case False
      then have "?W (s ! (nat m - 1)) < ?W (s ! nat m)"
        using inb by (intro strict_nth [OF less.prems(6)]) simp_all
      then show ?thesis using True by simp
    qed simp
    ultimately have "?res (nat m)" using True by simp
    then show ?thesis using inb by blast
  next
    case ne: False
    show ?thesis
    proof (cases "?W (s ! nat m) < num")
      case lt: True
      have notlast: "m \<noteq> int (length s) - 1"
      proof
        assume "m = int (length s) - 1"
        then have "nat m = length s - 1" by simp
        then show False using lt less.prems(7) by simp
      qed
      then have m1: "0 \<le> m + 1" "m + 1 < int (length s)" "nat (m + 1) < length s"
        using inb by auto
      show ?thesis
      proof (cases "num < ?W (s ! nat (m + 1))")
        case True
        then have "searchLoop s num l r = Some (Inr (WeightedItem.Index (s ! nat (m + 1))))"
          using inb ne lt notlast m1 by (subst searchLoop.simps) (simp add: sd Let_def)
        moreover have "nat (m + 1) - 1 = nat m" using inb by simp
        ultimately have "?res (nat (m + 1))" using True lt by simp
        then show ?thesis using m1 by blast
      next
        case False
        have "m \<noteq> r"
          using less.prems(5) lt notlast by auto
        then have mr: "m + 1 \<le> r" using m by simp
        have step: "searchLoop s num l r = searchLoop s num (m + 1) r"
          using inb ne lt notlast m1 False by (subst searchLoop.simps) (simp add: sd Let_def)
        have "\<exists>q < length s. searchLoop s num (m + 1) r = Some (Inr (WeightedItem.Index (s ! q)))
            \<and> num \<le> ?W (s ! q) \<and> (q = 0 \<or> ?W (s ! (q - 1)) \<le> num)"
        proof (rule less.hyps)
          show "nat (r - (m + 1)) < nat (r - l)" using m mr by simp
          show "0 \<le> m + 1" using inb by simp
          show "m + 1 \<le> r" by (rule mr)
          show "r < int (length s)" by (rule less.prems(3))
          show "m + 1 = 0 \<or> ?W (s ! nat (m + 1)) \<le> num" using False by simp
          show "r = int (length s) - 1 \<or> num < ?W (s ! nat r)" by (rule less.prems(5))
          show "sorted_wrt (<) (map ?W s)" by (rule less.prems(6))
          show "num \<le> ?W (s ! (length s - 1))" by (rule less.prems(7))
        qed
        then show ?thesis by (simp add: step)
      qed
    next
      case gt: False
      then have gt': "num < ?W (s ! nat m)" using ne by simp
      show ?thesis
      proof (cases "m = 0")
        case True
        then have "searchLoop s num l r = Some (Inr (WeightedItem.Index (s ! nat m)))"
          using inb ne gt by (subst searchLoop.simps) (simp add: sd Let_def)
        then have "?res (nat m)" using gt' True by simp
        then show ?thesis using inb by blast
      next
        case notfirst: False
        then have m1: "0 \<le> m - 1" "m - 1 < int (length s)"
          using inb by auto
        show ?thesis
        proof (cases "?W (s ! nat (m - 1)) \<le> num")
          case True
          then have "searchLoop s num l r = Some (Inr (WeightedItem.Index (s ! nat m)))"
            using inb ne gt notfirst m1 by (subst searchLoop.simps) (simp add: sd Let_def)
          moreover have "nat m - 1 = nat (m - 1)" using inb by simp
          ultimately have "?res (nat m)" using gt' True by simp
          then show ?thesis using inb by blast
        next
          case False
          have "m \<noteq> l"
            using less.prems(4) ne gt notfirst by auto
          then have lm: "l \<le> m - 1" using m by simp
          have step: "searchLoop s num l r = searchLoop s num l (m - 1)"
            using inb ne gt notfirst m1 False by (subst searchLoop.simps) (simp add: sd Let_def)
          have "\<exists>q < length s. searchLoop s num l (m - 1) = Some (Inr (WeightedItem.Index (s ! q)))
              \<and> num \<le> ?W (s ! q) \<and> (q = 0 \<or> ?W (s ! (q - 1)) \<le> num)"
          proof (rule less.hyps)
            show "nat (m - 1 - l) < nat (r - l)" using m lm by simp
            show "0 \<le> l" by (rule less.prems(1))
            show "l \<le> m - 1" by (rule lm)
            show "m - 1 < int (length s)" by (rule m1(2))
            show "l = 0 \<or> ?W (s ! nat l) \<le> num" by (rule less.prems(4))
            show "m - 1 = int (length s) - 1 \<or> num < ?W (s ! nat (m - 1))"
              using False by simp
            show "sorted_wrt (<) (map ?W s)" by (rule less.prems(6))
            show "num \<le> ?W (s ! (length s - 1))" by (rule less.prems(7))
          qed
          then show ?thesis by (simp add: step)
        qed
      qed
    qed
  qed
qed

lemma searchNum_band:
  assumes "s \<noteq> []" "sorted_wrt (<) (map WeightedItem.Weight s)"
    and "num \<le> WeightedItem.Weight (s ! (length s - 1))"
  shows "\<exists>q < length s. searchNum s num = Some (Inr (WeightedItem.Index (s ! q)))
      \<and> num \<le> WeightedItem.Weight (s ! q)
      \<and> (q = 0 \<or> WeightedItem.Weight (s ! (q - 1)) \<le> num)"
  unfolding searchNum_def Let_def
  using assms by (intro searchLoop_band) (auto simp: Suc_leI)

subsection \<open>The sorting contract of the floating-point variant\<close>

lemma sort_contract_float_mset: "sort_contract_float srt \<Longrightarrow> mset (srt s) = mset s"
  by (simp add: sort_contract_float_def)

lemma sort_contract_float_length: "sort_contract_float srt \<Longrightarrow> length (srt s) = length s"
  by (metis sort_contract_float_mset size_mset)

lemma sort_contract_float_set: "sort_contract_float srt \<Longrightarrow> set (srt s) = set s"
  by (metis sort_contract_float_mset set_mset_mset)

subsection \<open>The results of \<^verbatim>\<open>BuildCDF\<close> on integer weights\<close>

lemma err_distinct: "New tooShortErr \<noteq> New zeroWeightErr"
  by (simp add: tooShortErr_def zeroWeightErr_def)

lemma sorted_first_le:
  "sorted (map f xs) \<Longrightarrow> x \<in> set xs \<Longrightarrow> f (xs ! 0) \<le> f x"
  by (cases xs) auto

lemma sum_list_take_Suc_nth:
  "k < length xs \<Longrightarrow> sum_list (take (Suc k) xs) = (\<Sum>j = 0..k. (xs ! j :: int))"
proof -
  assume k: "k < length xs"
  have "sum_list (take (Suc k) xs) = (\<Sum>i = 0..<length (take (Suc k) xs). take (Suc k) xs ! i)"
    by (rule sum_list_sum_nth)
  also have "\<dots> = (\<Sum>i = 0..<Suc k. xs ! i)"
    using k by (intro sum.cong) auto
  finally show ?thesis by (simp add: atLeastLessThanSuc_atLeastAtMost)
qed

lemma BuildCDF_empty: "BuildCDF srt [] = ([], Inl (New tooShortErr))"
  by (simp add: BuildCDF_def)

lemma BuildCDF_nonpos:
  assumes "sort_contract srt" "s \<noteq> []" "\<exists>x\<in>set s. WeightedItem.Weight x \<le> 0"
  shows "BuildCDF srt s = (srt s, Inl (New zeroWeightErr))"
proof -
  obtain x where x: "x \<in> set (srt s)" "WeightedItem.Weight x \<le> 0"
    using assms(3) sort_contract_set [OF assms(1)] by auto
  have "WeightedItem.Weight (srt s ! 0) \<le> WeightedItem.Weight x"
    using sort_contract_sorted [OF assms(1)] x(1) by (rule sorted_first_le)
  then show ?thesis using x(2) assms(2) by (simp add: BuildCDF_def Let_def)
qed

lemma BuildCDF_pos:
  assumes "sort_contract srt" "s \<noteq> []" "\<forall>x\<in>set s. 0 < WeightedItem.Weight x"
  shows "BuildCDF srt s =
           (fst (accumulate 1 (srt s)), Inr (searchCDF (fst (accumulate 1 (srt s)))))"
proof -
  have len: "length (srt s) = length s" by (rule sort_contract_length [OF assms(1)])
  have pos: "0 < WeightedItem.Weight (srt s ! j)" if "j < length (srt s)" for j
    using assms(3) sort_contract_set [OF assms(1), of s] nth_mem [OF that] by auto
  have "\<not> WeightedItem.Weight (srt s ! 0) \<le> 0"
    using pos [of 0] len assms(2) by auto
  moreover have "snd (accumulate 1 (srt s)) = None"
    by (rule accumulate_ok) (simp add: pos)
  moreover obtain s2 where "accumulate 1 (srt s) = (s2, None)"
    using \<open>snd (accumulate 1 (srt s)) = None\<close> by (cases "accumulate 1 (srt s)") auto
  ultimately show ?thesis
    using assms(2) by (simp add: BuildCDF_def Let_def)
qed

lemma BuildCDF_Inr:
  assumes "sort_contract srt" "BuildCDF srt s = (s', Inr f)"
  shows "s \<noteq> [] \<and> (\<forall>x\<in>set s. 0 < WeightedItem.Weight x) \<and>
         s' = fst (accumulate 1 (srt s)) \<and> f = searchCDF s'"
proof -
  have ne: "s \<noteq> []"
    using assms(2) by (auto simp: BuildCDF_empty)
  have pos: "\<forall>x\<in>set s. 0 < WeightedItem.Weight x"
  proof (rule ccontr)
    assume "\<not> (\<forall>x\<in>set s. 0 < WeightedItem.Weight x)"
    then have "\<exists>x\<in>set s. WeightedItem.Weight x \<le> 0" by (simp add: not_less)
    then show False using BuildCDF_nonpos [OF assms(1) ne] assms(2) by simp
  qed
  show ?thesis
    using BuildCDF_pos [OF assms(1) ne pos] assms(2) ne pos by simp
qed

lemma BuildCDF_zeroWeightErr:
  assumes "sort_contract srt" "snd (BuildCDF srt s) = Inl (New zeroWeightErr)"
  shows "s \<noteq> [] \<and> fst (BuildCDF srt s) = srt s"
proof (cases "s = []")
  case True
  then show ?thesis using assms(2) err_distinct by (simp add: BuildCDF_empty)
next
  case False
  show ?thesis
  proof (cases "\<exists>x\<in>set s. WeightedItem.Weight x \<le> 0")
    case True
    then show ?thesis using False BuildCDF_nonpos [OF assms(1) False] by simp
  next
    case False
    then have "\<forall>x\<in>set s. 0 < WeightedItem.Weight x" by auto
    then show ?thesis
      using assms(2) BuildCDF_pos [OF assms(1) \<open>s \<noteq> []\<close>] by simp
  qed
qed

lemma BuildCDF_cumulative:
  assumes "sort_contract srt" "s \<noteq> []" "\<forall>x\<in>set s. 0 < WeightedItem.Weight x"
    and "sum_list (map WeightedItem.Weight s) < 2 ^ 63" and "k < length s"
  shows "WeightedItem.Weight (fst (BuildCDF srt s) ! k) =
           sum_list (take (Suc k) (sort (map WeightedItem.Weight s)))"
proof -
  let ?W = "WeightedItem.Weight"
  let ?s1 = "srt s"
  have len: "length ?s1 = length s" by (rule sort_contract_length [OF assms(1)])
  have pos: "0 < ?W (?s1 ! j)" if "j < length ?s1" for j
    using assms(3) sort_contract_set [OF assms(1), of s] nth_mem [OF that] by auto
  have ws: "map ?W ?s1 = sort (map ?W s)" by (rule sort_contract_weights [OF assms(1)])
  have "sum_list (map ?W ?s1) = sum_list (map ?W s)"
    using sort_contract_mset [OF assms(1), of s] by (metis mset_map sum_mset_sum_list)
  moreover have "sum_list (map ?W ?s1) = (\<Sum>j = 0..<length ?s1. ?W (?s1 ! j))"
    by (simp add: sum_list_sum_nth)
  moreover have "(\<Sum>j = 0..<length ?s1. ?W (?s1 ! j)) = ?W (?s1 ! 0) + (\<Sum>j = 1..<length ?s1. ?W (?s1 ! j))"
    using assms(2) len by (simp add: sum.atLeast_Suc_lessThan)
  ultimately have bound: "?W (?s1 ! (1 - 1)) + (\<Sum>j = 1..<length ?s1. ?W (?s1 ! j)) < 2 ^ 63"
    using assms(4) by simp
  have "?W (fst (accumulate 1 ?s1) ! k) =
          (if k < 1 then ?W (?s1 ! k) else ?W (?s1 ! (1 - 1)) + (\<Sum>j = 1..k. ?W (?s1 ! j)))"
  proof (rule accumulate_weights)
    show "(1::nat) \<le> 1" by simp
    show "\<forall>j. 1 \<le> j \<and> j < length ?s1 \<longrightarrow> 0 < ?W (?s1 ! j)" using pos by simp
    show "0 < ?W (?s1 ! (1 - 1))" using pos [of 0] len assms(2) by simp
    show "?W (?s1 ! (1 - 1)) + (\<Sum>j = 1..<length ?s1. ?W (?s1 ! j)) < 2 ^ 63" by (rule bound)
    show "k < length ?s1" using assms(5) len by simp
  qed
  also have "\<dots> = (\<Sum>j = 0..k. ?W (?s1 ! j))"
    by (cases k) (simp_all add: sum.atLeast_Suc_atMost)
  also have "\<dots> = (\<Sum>j = 0..k. map ?W ?s1 ! j)"
    using assms(5) len by (intro sum.cong) auto
  also have "\<dots> = sum_list (take (Suc k) (map ?W ?s1))"
    using assms(5) len by (simp add: sum_list_take_Suc_nth)
  finally show ?thesis
    using ws BuildCDF_pos [OF assms(1,2,3)] by simp
qed

lemma prefix_sums_strict:
  assumes "\<forall>x\<in>set ws. (0::int) < x" "i < j" "j < length ws"
  shows "sum_list (take (Suc i) ws) < sum_list (take (Suc j) ws)"
proof -
  have "take (Suc j) ws = take (Suc i) ws @ take (j - i) (drop (Suc i) ws)"
    using assms(2) take_add [of "Suc i" "j - i" ws] by simp
  moreover have "0 < sum_list (take (j - i) (drop (Suc i) ws))"
  proof -
    have ne: "take (j - i) (drop (Suc i) ws) \<noteq> []" using assms(2,3) by simp
    have "\<forall>x\<in>set (take (j - i) (drop (Suc i) ws)). 0 < x"
      using assms(1) by (meson in_set_dropD in_set_takeD)
    then show ?thesis using ne
      by (cases "take (j - i) (drop (Suc i) ws)") (auto intro: add_pos_nonneg sum_list_nonneg less_imp_le)
  qed
  ultimately show ?thesis by simp
qed

subsection \<open>The draws of the integer variant\<close>

lemma searchCDF_result:
  assumes "s \<noteq> []"
  shows "(\<exists>p. searchCDF s r = Some (Inl p)) \<or>
         (\<exists>q<length s. searchCDF s r = Some (Inr (WeightedItem.Index (s ! q))))"
proof (cases "pickNum s r")
  case (Inl p)
  then show ?thesis by (simp add: searchCDF_def)
next
  case (Inr num)
  then show ?thesis using assms searchNum_returns [OF assms, of num] by (simp add: searchCDF_def)
qed

lemma pickNum_pos:
  assumes "s \<noteq> []" "0 < WeightedItem.Weight (s ! (length s - 1))"
  shows "pickNum s r = Inr (int r mod WeightedItem.Weight (s ! (length s - 1)) + 1)"
  using assms by (simp add: pickNum_def Intn_def)

subsection \<open>The cumulative array when no sum overflows\<close>

lemma sum_list_pos_int:
  "xs \<noteq> [] \<Longrightarrow> \<forall>x\<in>set xs. (0::int) < x \<Longrightarrow> 0 < sum_list xs"
  by (cases xs) (auto intro: add_pos_nonneg sum_list_nonneg less_imp_le)

lemma BuildCDF_total:
  assumes "sort_contract srt" "s \<noteq> []" "\<forall>x\<in>set s. 0 < WeightedItem.Weight x"
    and "sum_list (map WeightedItem.Weight s) < 2 ^ 63"
  shows "WeightedItem.Weight (fst (BuildCDF srt s) ! (length s - 1)) = sum_list (map WeightedItem.Weight s)"
proof -
  have "WeightedItem.Weight (fst (BuildCDF srt s) ! (length s - 1)) =
          sum_list (take (Suc (length s - 1)) (sort (map WeightedItem.Weight s)))"
    using assms by (intro BuildCDF_cumulative) simp_all
  also have "\<dots> = sum_list (sort (map WeightedItem.Weight s))"
    using assms(2) by simp
  also have "\<dots> = sum_list (map WeightedItem.Weight s)"
    by (metis mset_sort sum_mset_sum_list)
  finally show ?thesis .
qed

lemma BuildCDF_length:
  assumes "sort_contract srt" "s \<noteq> []" "\<forall>x\<in>set s. 0 < WeightedItem.Weight x"
  shows "length (fst (BuildCDF srt s)) = length s"
  using BuildCDF_pos [OF assms] accumulate_length [of 1 "srt s"] sort_contract_length [OF assms(1), of s]
  by simp

lemma BuildCDF_strict:
  assumes "sort_contract srt" "s \<noteq> []" "\<forall>x\<in>set s. 0 < WeightedItem.Weight x"
    and "sum_list (map WeightedItem.Weight s) < 2 ^ 63"
  shows "sorted_wrt (<) (map WeightedItem.Weight (fst (BuildCDF srt s)))"
proof -
  let ?ws = "sort (map WeightedItem.Weight s)"
  have len: "length (fst (BuildCDF srt s)) = length s" by (rule BuildCDF_length [OF assms(1,2,3)])
  have pos: "\<forall>x\<in>set ?ws. 0 < x" using assms(3) by auto
  have "WeightedItem.Weight (fst (BuildCDF srt s) ! i) < WeightedItem.Weight (fst (BuildCDF srt s) ! j)"
    if "i < j" "j < length s" for i j
  proof -
    have "sum_list (take (Suc i) ?ws) < sum_list (take (Suc j) ?ws)"
      using pos that by (intro prefix_sums_strict) simp_all
    then show ?thesis
      using that BuildCDF_cumulative [OF assms, of i] BuildCDF_cumulative [OF assms, of j] by simp
  qed
  then show ?thesis using len by (simp add: sorted_wrt_iff_nth_less)
qed

subsection \<open>The test inputs, and a distribution built with success\<close>

lemma cdf_int:
  "BuildCDF (sort_key WeightedItem.Weight) buildWeightedArray =
     ([WeightedItem.make 1 0, WeightedItem.make 3 1, WeightedItem.make 8 2],
      Inr (searchCDF [WeightedItem.make 1 0, WeightedItem.make 3 1, WeightedItem.make 8 2]))"
  by (simp add: BuildCDF_def buildWeightedArray_def accumulate.simps wrap64_def WeightedItem.defs)

lemma BuildCDF_Inr_nonempty:
  assumes "sort_contract srt" "BuildCDF srt s = (s', Inr f)"
  shows "s' \<noteq> [] \<and> f = searchCDF s'"
proof -
  have ne: "s \<noteq> []" and s': "s' = fst (accumulate 1 (srt s))" and f: "f = searchCDF s'"
    using BuildCDF_Inr [OF assms] by simp_all
  have "length s' = length s"
    using s' accumulate_length [of 1 "srt s"] sort_contract_length [OF assms(1), of s] by simp
  then show ?thesis using ne f by auto
qed

subsection \<open>Error results and drawn numbers of the integer variant\<close>

text \<open>
  The error results of the integer variant, for every sorting function that meets the
  contract: an error exactly when the collection is empty or holds a weight \<open>\<le> 0\<close>.
\<close>

lemma BuildCDF_error_iff:
  assumes "sort_contract srt"
  shows "(s = [] \<longrightarrow> snd (BuildCDF srt s) = Inl (New tooShortErr))
       \<and> (s \<noteq> [] \<and> (\<exists>x\<in>set s. WeightedItem.Weight x \<le> 0)
            \<longrightarrow> snd (BuildCDF srt s) = Inl (New zeroWeightErr))
       \<and> (s \<noteq> [] \<and> (\<forall>x\<in>set s. 0 < WeightedItem.Weight x)
            \<longrightarrow> (\<exists>f. snd (BuildCDF srt s) = Inr f))
       \<and> ((\<exists>e. snd (BuildCDF srt s) = Inl e) \<longleftrightarrow> s = [] \<or> (\<exists>x\<in>set s. WeightedItem.Weight x \<le> 0))"
proof -
  have i1: "s = [] \<longrightarrow> snd (BuildCDF srt s) = Inl (New tooShortErr)"
    by (simp add: BuildCDF_empty)
  have i2: "s \<noteq> [] \<and> (\<exists>x\<in>set s. WeightedItem.Weight x \<le> 0)
              \<longrightarrow> snd (BuildCDF srt s) = Inl (New zeroWeightErr)"
    using BuildCDF_nonpos [OF assms(1)] by simp
  have i3: "s \<noteq> [] \<and> (\<forall>x\<in>set s. 0 < WeightedItem.Weight x) \<longrightarrow> (\<exists>f. snd (BuildCDF srt s) = Inr f)"
    using BuildCDF_pos [OF assms(1)] by simp
  have i4: "(\<exists>e. snd (BuildCDF srt s) = Inl e) \<longleftrightarrow> s = [] \<or> (\<exists>x\<in>set s. WeightedItem.Weight x \<le> 0)"
  proof (cases "s = [] \<or> (\<exists>x\<in>set s. WeightedItem.Weight x \<le> 0)")
    case True
    then show ?thesis using i1 i2 by auto
  next
    case False
    then have "s \<noteq> [] \<and> (\<forall>x\<in>set s. 0 < WeightedItem.Weight x)" by (auto simp: not_le)
    then show ?thesis using i3 False by auto
  qed
  show ?thesis using i1 i2 i3 i4 by blast
qed

text \<open>
  The number drawn by the integer variant lies between 1 and the last entry of the slice,
  when that entry is positive, and every number in that range is drawn for some output of
  the generator.
\<close>

lemma pickNum_range:
  assumes "s \<noteq> []" "0 < WeightedItem.Weight (last s)"
  shows "pickNum s r = Inr (int r mod WeightedItem.Weight (last s) + 1)"
    and "\<exists>num. pickNum s r = Inr num \<and> 1 \<le> num \<and> num \<le> WeightedItem.Weight (last s)"
    and "1 \<le> k \<and> k \<le> WeightedItem.Weight (last s) \<Longrightarrow> \<exists>r'. pickNum s r' = Inr k"
proof -
  let ?n = "WeightedItem.Weight (last s)"
  have l: "s ! (length s - 1) = last s" using assms by (simp add: last_conv_nth)
  have n: "0 < WeightedItem.Weight (s ! (length s - 1))" using assms l by simp
  show p: "pickNum s r = Inr (int r mod ?n + 1)"
    using pickNum_pos [OF assms(1) n] l by simp
  have "0 \<le> int r mod ?n" "int r mod ?n < ?n" using assms by simp_all
  then show "\<exists>num. pickNum s r = Inr num \<and> 1 \<le> num \<and> num \<le> ?n"
    using p by auto
  show "\<exists>r'. pickNum s r' = Inr k" if b: "1 \<le> k \<and> k \<le> ?n"
  proof -
    have "int (nat (k - 1)) mod ?n = k - 1" using b by simp
    then have "pickNum s (nat (k - 1)) = Inr k"
      using pickNum_pos [OF assms(1) n, of "nat (k - 1)"] l by simp
    then show ?thesis ..
  qed
qed

subsection \<open>Comparisons and arithmetic of \<open>float64\<close>\<close>

lemma float64_less_simps [simp]:
  "(Finite x < Finite y) = (x < y)" "\<not> NaN < b" "\<not> a < NaN"
  by (simp_all add: less_float64_def split: float64.splits)

lemma float64_le_simps [simp]:
  "(Finite x \<le> Finite y) = (x \<le> y)" "\<not> NaN \<le> b" "\<not> a \<le> NaN"
  by (simp_all add: less_eq_float64_def split: float64.splits)

lemma float64_arith_simps [simp]:
  "Finite x + Finite y = Finite (x + y)" "NaN + b = NaN" "a + NaN = NaN"
  "Finite x - Finite y = Finite (x - y)" "NaN - b = NaN" "a - NaN = NaN"
  "Finite x * Finite y = Finite (x * y)" "NaN * b = NaN" "a * NaN = NaN"
  "\<bar>Finite x\<bar> = Finite \<bar>x\<bar>" "\<bar>NaN\<bar> = NaN"
  by (simp_all add: plus_float64_def minus_float64_def times_float64_def abs_float64_def
      split: float64.splits)

lemma float64_less_imp_le: "(a::float64) < b \<Longrightarrow> a \<le> b"
  by (cases a; cases b) simp_all

lemma float64_not_less_le: "a \<noteq> NaN \<Longrightarrow> b \<noteq> NaN \<Longrightarrow> \<not> (a::float64) < b \<Longrightarrow> b \<le> a"
  by (cases a; cases b) simp_all

lemma float64_le_trans: "(a::float64) \<le> b \<Longrightarrow> b \<le> c \<Longrightarrow> a \<le> c"
  by (cases a; cases b; cases c) simp_all

lemma float64_le_not_less: "(a::float64) \<le> b \<Longrightarrow> \<not> b < a"
  by (cases a; cases b) simp_all

lemma float64_pos_not_le: "(0::float64) < a \<Longrightarrow> \<not> a \<le> 0"
  by (cases a) (simp_all add: zero_float64_def)

subsection \<open>The insertion sort meets the contract\<close>

lemma mset_sinkFloat: "mset (sinkFloat x p) = add_mset x (mset p)"
  by (induction p) simp_all

lemma mset_foldl_sinkFloat: "mset (foldl (\<lambda>p x. sinkFloat x p) p s) = mset p + mset s"
  by (induction s arbitrary: p) (simp_all add: mset_sinkFloat)

lemma mset_insertionSortFloat: "mset (insertionSortFloat s) = mset s"
  by (simp add: insertionSortFloat_def mset_foldl_sinkFloat)

lemma set_sinkFloat: "set (sinkFloat x p) = insert x (set p)"
  by (metis mset_sinkFloat set_mset_mset set_mset_add_mset_insert)

lemma sorted_sinkFloat:
  assumes "sorted_wrt (\<lambda>a b. \<not> LessFloat a b) p"
    and "WeightedItemFloat.Weight x \<noteq> NaN" and "\<forall>y\<in>set p. WeightedItemFloat.Weight y \<noteq> NaN"
  shows "sorted_wrt (\<lambda>a b. \<not> LessFloat a b) (sinkFloat x p)"
  using assms
proof (induction p)
  case Nil
  then show ?case by simp
next
  case (Cons y p)
  show ?case
  proof (cases "LessFloat x y")
    case True
    then have "\<not> LessFloat y x"
      using float64_less_imp_le float64_le_not_less by (auto simp: LessFloat_def)
    then show ?thesis using True Cons by (simp add: set_sinkFloat)
  next
    case False
    have "\<not> LessFloat x z" if "z \<in> set p" for z
    proof -
      have "WeightedItemFloat.Weight z \<le> WeightedItemFloat.Weight y"
        using Cons.prems that by (intro float64_not_less_le) (auto simp: LessFloat_def)
      moreover have "WeightedItemFloat.Weight y \<le> WeightedItemFloat.Weight x"
        using Cons.prems False by (intro float64_not_less_le) (auto simp: LessFloat_def)
      ultimately show ?thesis
        using float64_le_trans float64_le_not_less by (auto simp: LessFloat_def)
    qed
    then show ?thesis using False Cons.prems by simp
  qed
qed

lemma sorted_foldl_sinkFloat:
  assumes "sorted_wrt (\<lambda>a b. \<not> LessFloat a b) p"
    and "\<forall>y\<in>set p. WeightedItemFloat.Weight y \<noteq> NaN" and "\<forall>y\<in>set s. WeightedItemFloat.Weight y \<noteq> NaN"
  shows "sorted_wrt (\<lambda>a b. \<not> LessFloat a b) (foldl (\<lambda>p x. sinkFloat x p) p s)"
  using assms
proof (induction s arbitrary: p)
  case Nil
  then show ?case by simp
next
  case (Cons x s)
  have "sorted_wrt (\<lambda>a b. \<not> LessFloat a b) (sinkFloat x p)"
    using Cons.prems by (intro sorted_sinkFloat) simp_all
  moreover have "\<forall>y\<in>set (sinkFloat x p). WeightedItemFloat.Weight y \<noteq> NaN"
    using Cons.prems by (simp add: set_sinkFloat)
  ultimately show ?case using Cons.prems by (simp add: Cons.IH)
qed

lemma insertionSortFloat_contract: "sort_contract_float insertionSortFloat"
proof -
  have "sorted_wrt (\<lambda>a b. \<not> LessFloat b a) (insertionSortFloat s)"
    if "\<forall>x\<in>set s. WeightedItemFloat.Weight x \<noteq> NaN" for s
  proof -
    have "sorted_wrt (\<lambda>a b. \<not> LessFloat a b) (foldl (\<lambda>p x. sinkFloat x p) [] s)"
      using that by (intro sorted_foldl_sinkFloat) simp_all
    then show ?thesis by (simp add: insertionSortFloat_def sorted_wrt_rev)
  qed
  then show ?thesis by (simp add: sort_contract_float_def mset_insertionSortFloat)
qed

lemma sort_contract_float_sorted:
  "sort_contract_float srt \<Longrightarrow> \<forall>x\<in>set s. WeightedItemFloat.Weight x \<noteq> NaN \<Longrightarrow>
   sorted_wrt (\<lambda>a b. \<not> LessFloat b a) (srt s)"
  by (simp add: sort_contract_float_def)

subsection \<open>The accumulation loop\<close>

lemma accumulateFloat_length: "length (fst (accumulateFloat i s)) = length s"
  by (induction i s rule: accumulateFloat.induct) (subst accumulateFloat.simps, simp)

lemma accumulateFloat_Index:
  "map WeightedItemFloat.Index (fst (accumulateFloat i s)) = map WeightedItemFloat.Index s"
proof (induction i s rule: accumulateFloat.induct)
  case (1 i s)
  show ?case
  proof (cases "i < length s \<and> \<not> WeightedItemFloat.Weight (s ! 0) \<le> 0")
    case True
    then show ?thesis
      using "1.IH" by (subst accumulateFloat.simps) (simp add: map_update list_update_same_conv)
  next
    case False
    then show ?thesis by (subst accumulateFloat.simps) auto
  qed
qed

lemma accumulateFloat_ok:
  "1 \<le> i \<Longrightarrow> \<not> WeightedItemFloat.Weight (s ! 0) \<le> 0 \<Longrightarrow> snd (accumulateFloat i s) = None"
proof (induction i s rule: accumulateFloat.induct)
  case (1 i s)
  show ?case
  proof (cases "i < length s")
    case True
    have "snd (accumulateFloat (i + 1) (s[i := (s ! i)\<lparr>WeightedItemFloat.Weight :=
             WeightedItemFloat.Weight (s ! i) + WeightedItemFloat.Weight (s ! (i - 1))\<rparr>])) = None"
      using True "1.prems" by (intro "1.IH") auto
    then show ?thesis using True "1.prems" by (subst accumulateFloat.simps) simp
  next
    case False
    then show ?thesis by (subst accumulateFloat.simps) simp
  qed
qed

lemma accumulateFloat_err:
  assumes "1 \<le> i"
  shows "snd (accumulateFloat i s) =
           (if i < length s \<and> WeightedItemFloat.Weight (s ! 0) \<le> 0
            then Some (New zeroWeightErr) else None)"
proof (cases "WeightedItemFloat.Weight (s ! 0) \<le> 0")
  case True
  then show ?thesis by (subst accumulateFloat.simps) simp
next
  case False
  then show ?thesis using accumulateFloat_ok [OF assms] by simp
qed

subsection \<open>The binary search of the floating-point variant\<close>

text \<open>
  The loop reaches a \<^verbatim>\<open>return\<close> whatever the weights and the number are, NaN included.
  The invariant: if \<open>left\<close> has moved, the entry before it is below the number; if \<open>right\<close>
  has moved, the entry at it is not \<open>\<le>\<close> the number.
\<close>

lemma searchLoopFloat_returns:
  "0 \<le> l \<Longrightarrow> l \<le> r \<Longrightarrow> r < int (length s) \<Longrightarrow>
   l = 0 \<or> WeightedItemFloat.Weight (s ! nat (l - 1)) < num \<Longrightarrow>
   r = int (length s) - 1 \<or> \<not> WeightedItemFloat.Weight (s ! nat r) \<le> num \<Longrightarrow>
   \<exists>q < length s. searchLoopFloat s num l r = Some (Inr (WeightedItemFloat.Index (s ! q)))"
proof (induction "nat (r - l)" arbitrary: l r rule: less_induct)
  case less
  let ?W = "WeightedItemFloat.Weight"
  define m where "m = (l + r) div 2"
  have m: "l \<le> m" "m \<le> r"
    using less.prems by (auto simp: m_def)
  have sd: "(l + r) sdiv 2 = m"
    using less.prems by (simp add: m_def sdiv2_nonneg)
  have inb: "0 \<le> m" "m < int (length s)" "nat m < length s"
    using m less.prems by auto
  show ?case
  proof (cases "\<bar>?W (s ! nat m) - num\<bar> \<le> EPSILON")
    case True
    then have "searchLoopFloat s num l r = Some (Inr (WeightedItemFloat.Index (s ! nat m)))"
      using inb by (subst searchLoopFloat.simps) (simp add: sd Let_def)
    then show ?thesis using inb by blast
  next
    case ne: False
    show ?thesis
    proof (cases "?W (s ! nat m) < num")
      case lt: True
      show ?thesis
      proof (cases "m = int (length s) - 1")
        case True
        then have "searchLoopFloat s num l r = Some (Inr (WeightedItemFloat.Index (s ! nat m)))"
          using inb ne lt by (subst searchLoopFloat.simps) (simp add: sd Let_def)
        then show ?thesis using inb by blast
      next
        case notlast: False
        then have m1: "0 \<le> m + 1" "m + 1 < int (length s)" "nat (m + 1) < length s"
          using inb by auto
        show ?thesis
        proof (cases "num < ?W (s ! nat (m + 1))")
          case True
          then have "searchLoopFloat s num l r = Some (Inr (WeightedItemFloat.Index (s ! nat (m + 1))))"
            using inb ne lt notlast m1 by (subst searchLoopFloat.simps) (simp add: sd Let_def)
          then show ?thesis using m1 by blast
        next
          case False
          have "m \<noteq> r"
            using less.prems(5) float64_less_imp_le [OF lt] notlast by auto
          then have mr: "m + 1 \<le> r" using m by simp
          have step: "searchLoopFloat s num l r = searchLoopFloat s num (m + 1) r"
            using inb ne lt notlast m1 False by (subst searchLoopFloat.simps) (simp add: sd Let_def)
          have "\<exists>q < length s. searchLoopFloat s num (m + 1) r
                  = Some (Inr (WeightedItemFloat.Index (s ! q)))"
          proof (rule less.hyps)
            show "nat (r - (m + 1)) < nat (r - l)" using m mr by simp
            show "0 \<le> m + 1" using inb by simp
            show "m + 1 \<le> r" by (rule mr)
            show "r < int (length s)" by (rule less.prems(3))
            show "m + 1 = 0 \<or> ?W (s ! nat (m + 1 - 1)) < num" using lt by simp
            show "r = int (length s) - 1 \<or> \<not> ?W (s ! nat r) \<le> num" by (rule less.prems(5))
          qed
          then show ?thesis by (simp add: step)
        qed
      qed
    next
      case nlt: False
      show ?thesis
      proof (cases "m = 0")
        case True
        then have "searchLoopFloat s num l r = Some (Inr (WeightedItemFloat.Index (s ! nat m)))"
          using inb ne nlt by (subst searchLoopFloat.simps) (simp add: sd Let_def)
        then show ?thesis using inb by blast
      next
        case notfirst: False
        then have m1: "0 \<le> m - 1" "m - 1 < int (length s)"
          using inb by auto
        show ?thesis
        proof (cases "?W (s ! nat (m - 1)) \<le> num")
          case True
          then have "searchLoopFloat s num l r = Some (Inr (WeightedItemFloat.Index (s ! nat m)))"
            using inb ne nlt notfirst m1 by (subst searchLoopFloat.simps) (simp add: sd Let_def)
          then show ?thesis using inb by blast
        next
          case False
          have "m \<noteq> l"
          proof
            assume "m = l"
            then have "?W (s ! nat (m - 1)) < num" using less.prems(4) notfirst by simp
            then show False using False float64_less_imp_le by blast
          qed
          then have lm: "l \<le> m - 1" using m by simp
          have step: "searchLoopFloat s num l r = searchLoopFloat s num l (m - 1)"
            using inb ne nlt notfirst m1 False by (subst searchLoopFloat.simps) (simp add: sd Let_def)
          have "\<exists>q < length s. searchLoopFloat s num l (m - 1)
                  = Some (Inr (WeightedItemFloat.Index (s ! q)))"
          proof (rule less.hyps)
            show "nat (m - 1 - l) < nat (r - l)" using m lm by simp
            show "0 \<le> l" by (rule less.prems(1))
            show "l \<le> m - 1" by (rule lm)
            show "m - 1 < int (length s)" by (rule m1(2))
            show "l = 0 \<or> ?W (s ! nat (l - 1)) < num" by (rule less.prems(4))
            show "m - 1 = int (length s) - 1 \<or> \<not> ?W (s ! nat (m - 1)) \<le> num"
              using False by simp
          qed
          then show ?thesis by (simp add: step)
        qed
      qed
    qed
  qed
qed

lemma searchNumFloat_returns:
  "s \<noteq> [] \<Longrightarrow> \<exists>q < length s. searchNumFloat s num = Some (Inr (WeightedItemFloat.Index (s ! q)))"
  unfolding searchNumFloat_def Let_def
  by (rule searchLoopFloat_returns) (auto simp: Suc_leI)

lemma searchCDFFloat_result:
  assumes "s \<noteq> []"
  shows "\<exists>q<length s. searchCDFFloat s u = Some (Inr (WeightedItemFloat.Index (s ! q)))"
  using assms searchNumFloat_returns [OF assms] by (simp add: searchCDFFloat_def pickNumFloat_def)

subsection \<open>The results of \<^verbatim>\<open>BuildCDF\<close> on floating-point weights\<close>

lemma BuildCDFFloat_empty: "BuildCDFFloat srt [] = ([], Inl (New tooShortErr))"
  by (simp add: BuildCDFFloat_def)

lemma BuildCDFFloat_nonempty:
  assumes "s \<noteq> []"
  shows "BuildCDFFloat srt s =
           (if WeightedItemFloat.Weight (srt s ! 0) \<le> 0 then (srt s, Inl (New zeroWeightErr))
            else (fst (accumulateFloat 1 (srt s)),
                  Inr (searchCDFFloat (fst (accumulateFloat 1 (srt s))))))"
proof (cases "WeightedItemFloat.Weight (srt s ! 0) \<le> 0")
  case True
  then show ?thesis using assms by (simp add: BuildCDFFloat_def Let_def)
next
  case False
  then have "snd (accumulateFloat 1 (srt s)) = None"
    by (intro accumulateFloat_ok) simp_all
  then obtain s2 where "accumulateFloat 1 (srt s) = (s2, None)"
    by (cases "accumulateFloat 1 (srt s)") auto
  then show ?thesis using False assms by (simp add: BuildCDFFloat_def Let_def)
qed

lemma BuildCDFFloat_Inr:
  assumes "BuildCDFFloat srt s = (s', Inr f)"
  shows "s \<noteq> [] \<and> s' = fst (accumulateFloat 1 (srt s)) \<and> f = searchCDFFloat s'"
proof -
  have ne: "s \<noteq> []"
    using assms by (auto simp: BuildCDFFloat_empty)
  show ?thesis
    using BuildCDFFloat_nonempty [OF ne, of srt] assms ne by (auto split: if_splits)
qed

lemma BuildCDFFloat_Inr_nonempty:
  assumes "sort_contract_float srt" "BuildCDFFloat srt s = (s', Inr f)"
  shows "s' \<noteq> [] \<and> f = searchCDFFloat s'"
proof -
  have ne: "s \<noteq> []" and s': "s' = fst (accumulateFloat 1 (srt s))" and f: "f = searchCDFFloat s'"
    using BuildCDFFloat_Inr [OF assms(2)] by simp_all
  have "length s' = length s"
    using s' accumulateFloat_length [of 1 "srt s"] sort_contract_float_length [OF assms(1), of s]
    by simp
  then show ?thesis using ne f by auto
qed

text \<open>
  On a slice without NaN the sort puts the smallest weight first, and the build fails when
  some weight is not positive.  With a NaN weight this is lost: see claim C3.
\<close>

lemma first_le_float:
  assumes "sorted_wrt (\<lambda>a b. \<not> LessFloat b a) xs" "x \<in> set xs"
    and "\<forall>y\<in>set xs. WeightedItemFloat.Weight y \<noteq> NaN"
  shows "WeightedItemFloat.Weight (xs ! 0) \<le> WeightedItemFloat.Weight x"
proof (cases xs)
  case Nil
  then show ?thesis using assms(2) by simp
next
  case (Cons y ys)
  show ?thesis
  proof (cases "x = y")
    case True
    then show ?thesis using assms(3) Cons by (cases "WeightedItemFloat.Weight y") simp_all
  next
    case False
    then have "\<not> LessFloat x y" using assms(1,2) Cons by auto
    then show ?thesis
      using assms(2,3) Cons by (intro float64_not_less_le) (auto simp: LessFloat_def)
  qed
qed

lemma BuildCDFFloat_nonpos:
  assumes "sort_contract_float srt" "s \<noteq> []" "\<forall>x\<in>set s. WeightedItemFloat.Weight x \<noteq> NaN"
    and "\<exists>x\<in>set s. WeightedItemFloat.Weight x \<le> 0"
  shows "BuildCDFFloat srt s = (srt s, Inl (New zeroWeightErr))"
proof -
  have set: "set (srt s) = set s" by (rule sort_contract_float_set [OF assms(1)])
  obtain x where x: "x \<in> set (srt s)" "WeightedItemFloat.Weight x \<le> 0"
    using assms(4) set by auto
  have "WeightedItemFloat.Weight (srt s ! 0) \<le> WeightedItemFloat.Weight x"
    using sort_contract_float_sorted [OF assms(1,3)] x(1) assms(3) set
    by (intro first_le_float) simp_all
  then have "WeightedItemFloat.Weight (srt s ! 0) \<le> 0"
    using x(2) float64_le_trans by blast
  then show ?thesis using BuildCDFFloat_nonempty [OF assms(2)] by simp
qed

lemma BuildCDFFloat_pos:
  assumes "sort_contract_float srt" "s \<noteq> []" "\<forall>x\<in>set s. 0 < WeightedItemFloat.Weight x"
  shows "BuildCDFFloat srt s =
           (fst (accumulateFloat 1 (srt s)), Inr (searchCDFFloat (fst (accumulateFloat 1 (srt s)))))"
proof -
  have "srt s \<noteq> []"
    using sort_contract_float_length [OF assms(1), of s] assms(2) by auto
  then have "srt s ! 0 \<in> set s"
    using sort_contract_float_set [OF assms(1), of s] nth_mem [of 0 "srt s"] by auto
  then have "\<not> WeightedItemFloat.Weight (srt s ! 0) \<le> 0"
    using assms(3) float64_pos_not_le by blast
  then show ?thesis using BuildCDFFloat_nonempty [OF assms(2)] by simp
qed

subsection \<open>Evaluation\<close>

lemma cdf_float:
  "BuildCDFFloat insertionSortFloat buildWeightedFloatArray =
     ([WeightedItemFloat.make (Finite (15 / 10)) 0, WeightedItemFloat.make (Finite (383 / 100)) 1,
       WeightedItemFloat.make (Finite (97299 / 10000)) 2],
      Inr (searchCDFFloat [WeightedItemFloat.make (Finite (15 / 10)) 0,
       WeightedItemFloat.make (Finite (383 / 100)) 1,
       WeightedItemFloat.make (Finite (97299 / 10000)) 2]))"
  by (simp add: BuildCDFFloat_def buildWeightedFloatArray_def accumulateFloat.simps
      insertionSortFloat_def LessFloat_def zero_float64_def WeightedItemFloat.defs)

lemma nan_sort:
  "insertionSortFloat [WeightedItemFloat.make (Finite 1) 0, WeightedItemFloat.make NaN 1,
       WeightedItemFloat.make (Finite (- 5)) 2]
   = [WeightedItemFloat.make (Finite 1) 0, WeightedItemFloat.make NaN 1,
       WeightedItemFloat.make (Finite (- 5)) 2]"
  by (simp add: insertionSortFloat_def LessFloat_def WeightedItemFloat.defs)

lemma nan_build:
  "BuildCDFFloat insertionSortFloat
       [WeightedItemFloat.make (Finite 1) 0, WeightedItemFloat.make NaN 1,
        WeightedItemFloat.make (Finite (- 5)) 2]
   = ([WeightedItemFloat.make (Finite 1) 0, WeightedItemFloat.make NaN 1,
        WeightedItemFloat.make NaN 2],
      Inr (searchCDFFloat [WeightedItemFloat.make (Finite 1) 0, WeightedItemFloat.make NaN 1,
        WeightedItemFloat.make NaN 2]))"
  by (simp add: BuildCDFFloat_def accumulateFloat.simps
      insertionSortFloat_def LessFloat_def zero_float64_def WeightedItemFloat.defs)

lemma below_one:
  "BuildCDFFloat insertionSortFloat
       [WeightedItemFloat.make (Finite (1 / 4)) 0, WeightedItemFloat.make (Finite (1 / 4)) 1] =
     ([WeightedItemFloat.make (Finite (1 / 4)) 0, WeightedItemFloat.make (Finite (1 / 2)) 1],
      Inr (searchCDFFloat [WeightedItemFloat.make (Finite (1 / 4)) 0,
        WeightedItemFloat.make (Finite (1 / 2)) 1]))
   \<and> pickNumFloat [WeightedItemFloat.make (Finite (1 / 4)) 0,
        WeightedItemFloat.make (Finite (1 / 2)) 1] (1 / 2) = Inr (Finite (3 / 4))
   \<and> \<not> (1::float64) \<le> Finite (3 / 4)
   \<and> \<not> Finite (3 / 4) \<le> WeightedItemFloat.Weight (last [WeightedItemFloat.make (Finite (1 / 4)) 0,
        WeightedItemFloat.make (Finite (1 / 2)) 1])
   \<and> searchCDFFloat [WeightedItemFloat.make (Finite (1 / 4)) 0,
        WeightedItemFloat.make (Finite (1 / 2)) 1] (1 / 2) = Some (Inr 1)
   \<and> searchCDFFloat [WeightedItemFloat.make (Finite (1 / 4)) 0,
        WeightedItemFloat.make (Finite (1 / 2)) 1] 0 = Some (Inr 1)"
  by (simp add: BuildCDFFloat_def accumulateFloat.simps pickNumFloat_def searchCDFFloat_def
      searchNumFloat_def searchLoopFloat.simps signed_divide_int_def EPSILON_def
      insertionSortFloat_def LessFloat_def zero_float64_def one_float64_def WeightedItemFloat.defs)

lemma below_one_always_last:
  assumes "0 \<le> u" "u < 1"
  shows "searchCDFFloat [WeightedItemFloat.make (Finite (1 / 4)) 0,
           WeightedItemFloat.make (Finite (1 / 2)) 1] u = Some (Inr 1)"
proof -
  let ?s = "[WeightedItemFloat.make (Finite (1 / 4)) 0, WeightedItemFloat.make (Finite (1 / 2)) 1]"
  define x where "x = u * (1 / 2 - 1) + 1"
  have x: "1 / 2 < x" "x \<le> 1" using assms by (simp_all add: x_def)
  have num: "pickNumFloat ?s u = Inr (Finite x)"
    by (simp add: pickNumFloat_def x_def one_float64_def WeightedItemFloat.defs)
  have step: "searchLoopFloat ?s (Finite x) 0 1 = searchLoopFloat ?s (Finite x) 1 1"
    using x by (subst searchLoopFloat.simps)
      (simp add: signed_divide_int_def EPSILON_def WeightedItemFloat.defs Let_def)
  have "searchLoopFloat ?s (Finite x) 1 1 = Some (Inr 1)"
    using x by (subst searchLoopFloat.simps)
      (simp add: signed_divide_int_def EPSILON_def WeightedItemFloat.defs Let_def)
  then show ?thesis
    using num step by (simp add: searchCDFFloat_def searchNumFloat_def)
qed

section \<open>The claims\<close>

text \<open>
  Each claim is stated for every sorting function that meets the contract of
  \<^verbatim>\<open>sort.Sort\<close>; the concrete instances use the insertion sort, \<open>sort_key\<close> of the library
  on integer weights and \<open>insertionSortFloat\<close> on floating-point weights, which meet it.
\<close>

text \<open>
  Claim C1.  On the cumulative array 1, 3, 8 with the indices 0, 1, 2 (built from the
  weights 1, 2, 5) the claim asks that the number 1 resolves to index 0, the first position
  whose cumulative value is at least 1.  The binary search probes the middle position
  first, finds \<open>3 > 1\<close> and, since the entry before it satisfies \<^verbatim>\<open>s[m-1].Weight <= num\<close>,
  returns the middle: the number 1 resolves to index 1.  The numbers 2, 3 and 8 resolve to
  the indices 1, 1 and 2, as the claim says.
\<close>

theorem C1_search_on_1_3_8:
  "BuildCDF (sort_key WeightedItem.Weight) buildWeightedArray =
     ([WeightedItem.make 1 0, WeightedItem.make 3 1, WeightedItem.make 8 2],
      Inr (searchCDF [WeightedItem.make 1 0, WeightedItem.make 3 1, WeightedItem.make 8 2]))
   \<and> searchNum [WeightedItem.make 1 0, WeightedItem.make 3 1, WeightedItem.make 8 2] 1 = Some (Inr 1)
   \<and> searchNum [WeightedItem.make 1 0, WeightedItem.make 3 1, WeightedItem.make 8 2] 1 \<noteq> Some (Inr 0)
   \<and> searchNum [WeightedItem.make 1 0, WeightedItem.make 3 1, WeightedItem.make 8 2] 2 = Some (Inr 1)
   \<and> searchNum [WeightedItem.make 1 0, WeightedItem.make 3 1, WeightedItem.make 8 2] 3 = Some (Inr 1)
   \<and> searchNum [WeightedItem.make 1 0, WeightedItem.make 3 1, WeightedItem.make 8 2] 8 = Some (Inr 2)"
  by (simp add: BuildCDF_def buildWeightedArray_def accumulate.simps wrap64_def WeightedItem.defs
      searchNum_def searchLoop.simps signed_divide_int_def)

text \<open>
  Claim C2.  For the distribution built from the weights 1, 2, 5 with the indices 0, 1, 2,
  the eight outputs 0, \<open>\<dots>\<close>, 7 of \<^verbatim>\<open>Intn\<close> give the numbers 1, \<open>\<dots>\<close>, 8.  The claim asks
  that 1, 2 and 5 of them resolve to the indices 0, 1 and 2.  The code resolves none of them
  to index 0, three of them (1, 2 and 3) to index 1 and five of them to index 2.
\<close>

theorem C2_numbers_per_index:
  "map (pickNum [WeightedItem.make 1 0, WeightedItem.make 3 1, WeightedItem.make 8 2])
       [0, 1, 2, 3, 4, 5, 6, 7]
     = [Inr 1, Inr 2, Inr 3, Inr 4, Inr 5, Inr 6, Inr 7, Inr 8]
   \<and> map (searchNum [WeightedItem.make 1 0, WeightedItem.make 3 1, WeightedItem.make 8 2])
       [1, 2, 3, 4, 5, 6, 7, 8]
     = [Some (Inr 1), Some (Inr 1), Some (Inr 1), Some (Inr 2), Some (Inr 2), Some (Inr 2),
        Some (Inr 2), Some (Inr 2)]
   \<and> length (filter (\<lambda>num. searchNum [WeightedItem.make 1 0, WeightedItem.make 3 1,
                 WeightedItem.make 8 2] num = Some (Inr 0)) [1, 2, 3, 4, 5, 6, 7, 8]) = 0
   \<and> length (filter (\<lambda>num. searchNum [WeightedItem.make 1 0, WeightedItem.make 3 1,
                 WeightedItem.make 8 2] num = Some (Inr 1)) [1, 2, 3, 4, 5, 6, 7, 8]) = 3
   \<and> length (filter (\<lambda>num. searchNum [WeightedItem.make 1 0, WeightedItem.make 3 1,
                 WeightedItem.make 8 2] num = Some (Inr 2)) [1, 2, 3, 4, 5, 6, 7, 8]) = 5"
  by (simp add: pickNum_def Intn_def WeightedItem.defs searchNum_def searchLoop.simps
      signed_divide_int_def)

text \<open>
  Claim C3.  The claim asks that \<^verbatim>\<open>BuildCDF\<close>, in both variants, returns the error
  \<open>zeroWeightErr\<close> for every collection that holds a weight \<open>\<le> 0\<close>.  The floating-point
  variant accepts the weights 1, NaN, -5 (indices 0, 1, 2): \<^verbatim>\<open>Less\<close> is false whenever one
  of the two weights is NaN, so the insertion sort swaps nothing; the check before the loop
  reads \<^verbatim>\<open>s[0].Weight\<close>, which is 1; the check inside the loop reads \<^verbatim>\<open>s[0]\<close> again and
  never the weight -5.  The build returns a draw function and no error, and leaves the
  weights 1, NaN, NaN in the slice.  (The integer variant, whose loop reads \<^verbatim>\<open>s[i]\<close>, and
  the floating-point variant on collections without NaN return the errors as claimed:
  \<open>BuildCDF_error_iff\<close>, \<open>BuildCDFFloat_nonpos\<close>, \<open>BuildCDFFloat_pos\<close>.)
\<close>

theorem C3_float_NaN_hides_nonpositive_weight:
  "insertionSortFloat [WeightedItemFloat.make (Finite 1) 0, WeightedItemFloat.make NaN 1,
       WeightedItemFloat.make (Finite (- 5)) 2]
     = [WeightedItemFloat.make (Finite 1) 0, WeightedItemFloat.make NaN 1,
        WeightedItemFloat.make (Finite (- 5)) 2]
   \<and> WeightedItemFloat.Weight ([WeightedItemFloat.make (Finite 1) 0, WeightedItemFloat.make NaN 1,
       WeightedItemFloat.make (Finite (- 5)) 2] ! 2) \<le> 0
   \<and> BuildCDFFloat insertionSortFloat
       [WeightedItemFloat.make (Finite 1) 0, WeightedItemFloat.make NaN 1,
        WeightedItemFloat.make (Finite (- 5)) 2]
     = ([WeightedItemFloat.make (Finite 1) 0, WeightedItemFloat.make NaN 1,
         WeightedItemFloat.make NaN 2],
        Inr (searchCDFFloat [WeightedItemFloat.make (Finite 1) 0, WeightedItemFloat.make NaN 1,
         WeightedItemFloat.make NaN 2]))"
  by (simp add: BuildCDFFloat_def accumulateFloat.simps
      insertionSortFloat_def LessFloat_def zero_float64_def WeightedItemFloat.defs)

text \<open>
  Claim C4, amended.  For a non-empty collection of positive integer weights whose sum is
  below \<open>2\<^sup>6\<^sup>3\<close> (no running sum wraps around), \<^verbatim>\<open>BuildCDF\<close> succeeds and leaves in the
  caller's slice, at each position \<open>i\<close>, the sum of the \<open>i + 1\<close> smallest original weights;
  the last entry is the sum of all the weights, and the weights stored are non-decreasing
  and strictly increasing from each entry to the next.
\<close>

theorem C4_cumulative_array:
  assumes "sort_contract srt" and "s \<noteq> []" and "\<forall>x\<in>set s. 0 < WeightedItem.Weight x"
    and "sum_list (map WeightedItem.Weight s) < 2 ^ 63"
  shows "(\<exists>f. snd (BuildCDF srt s) = Inr f)
       \<and> length (fst (BuildCDF srt s)) = length s
       \<and> (\<forall>i<length s. WeightedItem.Weight (fst (BuildCDF srt s) ! i) =
             sum_list (take (i + 1) (sort (map WeightedItem.Weight s))))
       \<and> WeightedItem.Weight (last (fst (BuildCDF srt s))) = sum_list (map WeightedItem.Weight s)
       \<and> sorted (map WeightedItem.Weight (fst (BuildCDF srt s)))
       \<and> sorted_wrt (<) (map WeightedItem.Weight (fst (BuildCDF srt s)))"
proof -
  let ?s' = "fst (BuildCDF srt s)"
  have ok: "\<exists>f. snd (BuildCDF srt s) = Inr f"
    using BuildCDF_pos [OF assms(1,2,3)] by simp
  have len: "length ?s' = length s" by (rule BuildCDF_length [OF assms(1,2,3)])
  have cum: "\<forall>i<length s. WeightedItem.Weight (?s' ! i) =
             sum_list (take (i + 1) (sort (map WeightedItem.Weight s)))"
    using BuildCDF_cumulative [OF assms] by simp
  have "last ?s' = ?s' ! (length s - 1)"
    using len assms(2) by (metis last_conv_nth length_0_conv)
  then have total: "WeightedItem.Weight (last ?s') = sum_list (map WeightedItem.Weight s)"
    using BuildCDF_total [OF assms] by simp
  have strict: "sorted_wrt (<) (map WeightedItem.Weight ?s')"
    by (rule BuildCDF_strict [OF assms])
  then have "sorted (map WeightedItem.Weight ?s')"
    by (rule sorted_wrt_mono_rel [rotated]) simp
  then show ?thesis using ok len cum total strict by blast
qed

theorem C4_cumulative_array_witness:
  "sort_contract (sort_key WeightedItem.Weight)
   \<and> buildWeightedArray \<noteq> []
   \<and> list_all (\<lambda>x. 0 < WeightedItem.Weight x) buildWeightedArray
   \<and> sum_list (map WeightedItem.Weight buildWeightedArray) < 2 ^ 63
   \<and> map WeightedItem.Weight (fst (BuildCDF (sort_key WeightedItem.Weight) buildWeightedArray))
       = [1, 3, 8]
   \<and> WeightedItem.Weight (last (fst (BuildCDF (sort_key WeightedItem.Weight) buildWeightedArray)))
       = sum_list (map WeightedItem.Weight buildWeightedArray)
   \<and> sorted_wrt (<)
        (map WeightedItem.Weight (fst (BuildCDF (sort_key WeightedItem.Weight) buildWeightedArray)))"
proof -
  have h: "buildWeightedArray \<noteq> []" "\<forall>x\<in>set buildWeightedArray. 0 < WeightedItem.Weight x"
    "sum_list (map WeightedItem.Weight buildWeightedArray) < 2 ^ 63"
    by (simp_all add: buildWeightedArray_def WeightedItem.defs)
  have p: "list_all (\<lambda>x. 0 < WeightedItem.Weight x) buildWeightedArray"
    using h(2) by (simp add: list_all_iff)
  have m: "map WeightedItem.Weight (fst (BuildCDF (sort_key WeightedItem.Weight) buildWeightedArray))
       = [1, 3, 8]"
    by (simp add: cdf_int WeightedItem.defs)
  show ?thesis
    using C4_cumulative_array [OF sort_key_contract h] h(1,3) p m sort_key_contract by blast
qed

text \<open>
  As stated, for every collection of positive weights, the claim fails when a running sum
  wraps around: for the two weights \<open>2\<^sup>6\<^sup>2\<close> the build succeeds, the second entry is
  \<open>- 2\<^sup>6\<^sup>3\<close> and not the sum \<open>2\<^sup>6\<^sup>3\<close>, and the stored weights are not even sorted.
\<close>

theorem C4_overflow_counterexample:
  "BuildCDF (sort_key WeightedItem.Weight)
       [WeightedItem.make (2 ^ 62) 0, WeightedItem.make (2 ^ 62) 1] =
     ([WeightedItem.make (2 ^ 62) 0, WeightedItem.make (- (2 ^ 63)) 1],
      Inr (searchCDF [WeightedItem.make (2 ^ 62) 0, WeightedItem.make (- (2 ^ 63)) 1]))
   \<and> WeightedItem.Weight (fst (BuildCDF (sort_key WeightedItem.Weight)
       [WeightedItem.make (2 ^ 62) 0, WeightedItem.make (2 ^ 62) 1]) ! 1) \<noteq> 2 ^ 62 + 2 ^ 62
   \<and> \<not> sorted (map WeightedItem.Weight (fst (BuildCDF (sort_key WeightedItem.Weight)
       [WeightedItem.make (2 ^ 62) 0, WeightedItem.make (2 ^ 62) 1])))"
  by (simp add: BuildCDF_def accumulate.simps wrap64_def WeightedItem.defs)

text \<open>
  Claim C5.  For a distribution that was built with success, in either variant, a call of
  the draw function ends, and every value it returns is the \<^verbatim>\<open>Index\<close> field of one of the
  items supplied to \<^verbatim>\<open>BuildCDF\<close>.  Hence, if all indices supplied lie in the range from 0
  up to, not including, \<open>n\<close>, so does every value drawn.
\<close>

theorem C5_draw_returns_supplied_index:
  assumes "sort_contract srt" and "sort_contract_float srtF"
  shows "(BuildCDF srt s = (s', Inr f) \<longrightarrow>
            (\<exists>y. f r = Some y)
          \<and> (\<forall>v. f r = Some (Inr v) \<longrightarrow> v \<in> WeightedItem.Index ` set s)
          \<and> ((\<forall>x\<in>set s. 0 \<le> WeightedItem.Index x \<and> WeightedItem.Index x < n)
               \<longrightarrow> (\<forall>v. f r = Some (Inr v) \<longrightarrow> 0 \<le> v \<and> v < n)))
       \<and> (BuildCDFFloat srtF sf = (sf', Inr g) \<longrightarrow>
            (\<exists>v. g u = Some (Inr v))
          \<and> (\<forall>v. g u = Some (Inr v) \<longrightarrow> v \<in> WeightedItemFloat.Index ` set sf)
          \<and> ((\<forall>x\<in>set sf. 0 \<le> WeightedItemFloat.Index x \<and> WeightedItemFloat.Index x < n)
               \<longrightarrow> (\<forall>v. g u = Some (Inr v) \<longrightarrow> 0 \<le> v \<and> v < n)))"
proof -
  have int_part: "(\<exists>y. f r = Some y) \<and> (\<forall>v. f r = Some (Inr v) \<longrightarrow> v \<in> WeightedItem.Index ` set s)"
    if b: "BuildCDF srt s = (s', Inr f)"
  proof -
    have ne: "s \<noteq> []" and s': "s' = fst (accumulate 1 (srt s))" and f: "f = searchCDF s'"
      using BuildCDF_Inr [OF assms(1) b] by simp_all
    have len: "length s' = length s"
      using s' accumulate_length [of 1 "srt s"] sort_contract_length [OF assms(1), of s] by simp
    then have ne': "s' \<noteq> []" using ne by auto
    have "set (map WeightedItem.Index s') = set (map WeightedItem.Index (srt s))"
      using s' accumulate_Index [of 1 "srt s"] by simp
    then have idx: "WeightedItem.Index ` set s' = WeightedItem.Index ` set s"
      using sort_contract_set [OF assms(1), of s] by simp
    have mem: "WeightedItem.Index (s' ! q) \<in> WeightedItem.Index ` set s" if "q < length s'" for q
      using idx nth_mem [OF that] by blast
    from searchCDF_result [OF ne', of r] show ?thesis
      using f mem by auto
  qed
  have float_part: "(\<exists>v. g u = Some (Inr v))
      \<and> (\<forall>v. g u = Some (Inr v) \<longrightarrow> v \<in> WeightedItemFloat.Index ` set sf)"
    if b: "BuildCDFFloat srtF sf = (sf', Inr g)"
  proof -
    have ne: "sf \<noteq> []" and s': "sf' = fst (accumulateFloat 1 (srtF sf))" and g: "g = searchCDFFloat sf'"
      using BuildCDFFloat_Inr [OF b] by simp_all
    have len: "length sf' = length sf"
      using s' accumulateFloat_length [of 1 "srtF sf"] sort_contract_float_length [OF assms(2), of sf]
      by simp
    then have ne': "sf' \<noteq> []" using ne by auto
    have "set (map WeightedItemFloat.Index sf') = set (map WeightedItemFloat.Index (srtF sf))"
      using s' accumulateFloat_Index [of 1 "srtF sf"] by simp
    then have idx: "WeightedItemFloat.Index ` set sf' = WeightedItemFloat.Index ` set sf"
      using sort_contract_float_set [OF assms(2), of sf] by simp
    have mem: "WeightedItemFloat.Index (sf' ! q) \<in> WeightedItemFloat.Index ` set sf"
      if "q < length sf'" for q
      using idx nth_mem [OF that] by blast
    from searchCDFFloat_result [OF ne', of u] show ?thesis
      using g mem by auto
  qed
  show ?thesis
    using int_part float_part by (intro conjI impI) blast+
qed

theorem C5_draw_returns_supplied_index_witness:
  "sort_contract (sort_key WeightedItem.Weight)
   \<and> sort_contract_float insertionSortFloat
   \<and> BuildCDF (sort_key WeightedItem.Weight) buildWeightedArray =
       ([WeightedItem.make 1 0, WeightedItem.make 3 1, WeightedItem.make 8 2],
        Inr (searchCDF [WeightedItem.make 1 0, WeightedItem.make 3 1, WeightedItem.make 8 2]))
   \<and> list_all (\<lambda>x. 0 \<le> WeightedItem.Index x \<and> WeightedItem.Index x < 3) buildWeightedArray
   \<and> searchCDF [WeightedItem.make 1 0, WeightedItem.make 3 1, WeightedItem.make 8 2] 0 = Some (Inr 1)
   \<and> 1 \<in> WeightedItem.Index ` set buildWeightedArray
   \<and> BuildCDFFloat insertionSortFloat buildWeightedFloatArray =
       ([WeightedItemFloat.make (Finite (15 / 10)) 0, WeightedItemFloat.make (Finite (383 / 100)) 1,
         WeightedItemFloat.make (Finite (97299 / 10000)) 2],
        Inr (searchCDFFloat [WeightedItemFloat.make (Finite (15 / 10)) 0,
         WeightedItemFloat.make (Finite (383 / 100)) 1,
         WeightedItemFloat.make (Finite (97299 / 10000)) 2]))
   \<and> list_all (\<lambda>x. 0 \<le> WeightedItemFloat.Index x \<and> WeightedItemFloat.Index x < 3)
         buildWeightedFloatArray
   \<and> searchCDFFloat [WeightedItemFloat.make (Finite (15 / 10)) 0,
         WeightedItemFloat.make (Finite (383 / 100)) 1,
         WeightedItemFloat.make (Finite (97299 / 10000)) 2] 0 = Some (Inr 0)
   \<and> 0 \<in> WeightedItemFloat.Index ` set buildWeightedFloatArray"
proof -
  have ri: "\<forall>x\<in>set buildWeightedArray. 0 \<le> WeightedItem.Index x \<and> WeightedItem.Index x < 3"
    by (simp add: buildWeightedArray_def WeightedItem.defs)
  have rf: "\<forall>x\<in>set buildWeightedFloatArray.
         0 \<le> WeightedItemFloat.Index x \<and> WeightedItemFloat.Index x < 3"
    by (simp add: buildWeightedFloatArray_def WeightedItemFloat.defs)
  have d: "searchCDF [WeightedItem.make 1 0, WeightedItem.make 3 1, WeightedItem.make 8 2] 0 = Some (Inr 1)"
    by (simp add: searchCDF_def pickNum_def Intn_def searchNum_def searchLoop.simps
        signed_divide_int_def WeightedItem.defs)
  have df: "searchCDFFloat [WeightedItemFloat.make (Finite (15 / 10)) 0,
         WeightedItemFloat.make (Finite (383 / 100)) 1,
         WeightedItemFloat.make (Finite (97299 / 10000)) 2] 0 = Some (Inr 0)"
    by (simp add: searchCDFFloat_def pickNumFloat_def searchNumFloat_def one_float64_def
        searchLoopFloat.simps signed_divide_int_def EPSILON_def WeightedItemFloat.defs)
  have "1 \<in> WeightedItem.Index ` set buildWeightedArray
      \<and> 0 \<in> WeightedItemFloat.Index ` set buildWeightedFloatArray"
    using C5_draw_returns_supplied_index [OF sort_key_contract insertionSortFloat_contract,
        of buildWeightedArray
           "[WeightedItem.make 1 0, WeightedItem.make 3 1, WeightedItem.make 8 2]"
           "searchCDF [WeightedItem.make 1 0, WeightedItem.make 3 1, WeightedItem.make 8 2]"
           0 3 buildWeightedFloatArray
           "[WeightedItemFloat.make (Finite (15 / 10)) 0,
             WeightedItemFloat.make (Finite (383 / 100)) 1,
             WeightedItemFloat.make (Finite (97299 / 10000)) 2]"
           "searchCDFFloat [WeightedItemFloat.make (Finite (15 / 10)) 0,
             WeightedItemFloat.make (Finite (383 / 100)) 1,
             WeightedItemFloat.make (Finite (97299 / 10000)) 2]"
           0]
      cdf_int cdf_float d df
    by blast
  then show ?thesis
    using cdf_int cdf_float ri rf d df sort_key_contract insertionSortFloat_contract
    by (simp add: list_all_iff)
qed

text \<open>
  Claim C6.  The claim asks that the number drawn by the floating-point variant lies between
  1 and the total weight, the last entry of the slice.  For the weights 1/4 and 1/4 the
  total is 1/2, and with \<^verbatim>\<open>r.Float64()\<close> equal to 1/2 the number drawn,
  \<^verbatim>\<open>r.Float64()*(total-1) + 1\<close>, is 3/4: it is neither at least 1 nor at most the total.  No
  number lies between 1 and a total below 1.  The draw then returns the index of the last
  item, as it does for every value of \<^verbatim>\<open>r.Float64()\<close> (\<open>below_one_always_last\<close>): the first
  item is never drawn.  (The integer variant draws a number between 1 and the total:
  \<open>pickNum_range\<close>.)
\<close>

theorem C6_float_total_below_one:
  "BuildCDFFloat insertionSortFloat
       [WeightedItemFloat.make (Finite (1 / 4)) 0, WeightedItemFloat.make (Finite (1 / 4)) 1] =
     ([WeightedItemFloat.make (Finite (1 / 4)) 0, WeightedItemFloat.make (Finite (1 / 2)) 1],
      Inr (searchCDFFloat [WeightedItemFloat.make (Finite (1 / 4)) 0,
        WeightedItemFloat.make (Finite (1 / 2)) 1]))
   \<and> pickNumFloat [WeightedItemFloat.make (Finite (1 / 4)) 0,
        WeightedItemFloat.make (Finite (1 / 2)) 1] (1 / 2) = Inr (Finite (3 / 4))
   \<and> \<not> (1::float64) \<le> Finite (3 / 4)
   \<and> \<not> Finite (3 / 4) \<le> WeightedItemFloat.Weight (last [WeightedItemFloat.make (Finite (1 / 4)) 0,
        WeightedItemFloat.make (Finite (1 / 2)) 1])
   \<and> searchCDFFloat [WeightedItemFloat.make (Finite (1 / 4)) 0,
        WeightedItemFloat.make (Finite (1 / 2)) 1] (1 / 2) = Some (Inr 1)
   \<and> searchCDFFloat [WeightedItemFloat.make (Finite (1 / 4)) 0,
        WeightedItemFloat.make (Finite (1 / 2)) 1] 0 = Some (Inr 1)"
  by (simp add: BuildCDFFloat_def accumulateFloat.simps pickNumFloat_def searchCDFFloat_def
      searchNumFloat_def searchLoopFloat.simps signed_divide_int_def EPSILON_def
      insertionSortFloat_def LessFloat_def zero_float64_def one_float64_def WeightedItemFloat.defs)

text \<open>
  Claim C7.  For a distribution that was built with success, every call of the draw
  function ends, in both variants, and the loop of the binary search reaches a
  \<^verbatim>\<open>return\<close> statement for every number it is given.
\<close>

theorem C7_draw_terminates:
  assumes "sort_contract srt" and "sort_contract_float srtF"
  shows "(BuildCDF srt s = (s', Inr f) \<longrightarrow>
            (\<exists>y. f r = Some y) \<and> (\<exists>v. searchNum s' num = Some (Inr v)))
       \<and> (BuildCDFFloat srtF sf = (sf', Inr g) \<longrightarrow>
            (\<exists>v. g u = Some (Inr v)) \<and> (\<exists>v. searchNumFloat sf' x = Some (Inr v)))"
proof (intro conjI impI)
  assume b: "BuildCDF srt s = (s', Inr f)"
  have ne: "s' \<noteq> []" and f: "f = searchCDF s'"
    using BuildCDF_Inr_nonempty [OF assms(1) b] by simp_all
  show "\<exists>y. f r = Some y"
    using searchCDF_result [OF ne, of r] f by auto
  show "\<exists>v. searchNum s' num = Some (Inr v)"
    using searchNum_returns [OF ne, of num] by auto
next
  assume b: "BuildCDFFloat srtF sf = (sf', Inr g)"
  have ne: "sf' \<noteq> []" and g: "g = searchCDFFloat sf'"
    using BuildCDFFloat_Inr_nonempty [OF assms(2) b] by simp_all
  show "\<exists>v. g u = Some (Inr v)"
    using searchCDFFloat_result [OF ne, of u] g by auto
  show "\<exists>v. searchNumFloat sf' x = Some (Inr v)"
    using searchNumFloat_returns [OF ne, of x] by auto
qed

theorem C7_draw_terminates_witness:
  "sort_contract (sort_key WeightedItem.Weight)
   \<and> sort_contract_float insertionSortFloat
   \<and> BuildCDF (sort_key WeightedItem.Weight) buildWeightedArray =
       ([WeightedItem.make 1 0, WeightedItem.make 3 1, WeightedItem.make 8 2],
        Inr (searchCDF [WeightedItem.make 1 0, WeightedItem.make 3 1, WeightedItem.make 8 2]))
   \<and> (\<exists>y. searchCDF [WeightedItem.make 1 0, WeightedItem.make 3 1, WeightedItem.make 8 2] 7 = Some y)
   \<and> (\<exists>v. searchNum [WeightedItem.make 1 0, WeightedItem.make 3 1, WeightedItem.make 8 2] 8
          = Some (Inr v))
   \<and> BuildCDFFloat insertionSortFloat buildWeightedFloatArray =
       ([WeightedItemFloat.make (Finite (15 / 10)) 0, WeightedItemFloat.make (Finite (383 / 100)) 1,
         WeightedItemFloat.make (Finite (97299 / 10000)) 2],
        Inr (searchCDFFloat [WeightedItemFloat.make (Finite (15 / 10)) 0,
         WeightedItemFloat.make (Finite (383 / 100)) 1,
         WeightedItemFloat.make (Finite (97299 / 10000)) 2]))
   \<and> (\<exists>v. searchCDFFloat [WeightedItemFloat.make (Finite (15 / 10)) 0,
         WeightedItemFloat.make (Finite (383 / 100)) 1,
         WeightedItemFloat.make (Finite (97299 / 10000)) 2] (7 / 8) = Some (Inr v))
   \<and> (\<exists>v. searchNumFloat [WeightedItemFloat.make (Finite (15 / 10)) 0,
         WeightedItemFloat.make (Finite (383 / 100)) 1,
         WeightedItemFloat.make (Finite (97299 / 10000)) 2] NaN = Some (Inr v))"
  using C7_draw_terminates [OF sort_key_contract insertionSortFloat_contract,
      of buildWeightedArray
         "[WeightedItem.make 1 0, WeightedItem.make 3 1, WeightedItem.make 8 2]"
         "searchCDF [WeightedItem.make 1 0, WeightedItem.make 3 1, WeightedItem.make 8 2]"
         7 8 buildWeightedFloatArray
         "[WeightedItemFloat.make (Finite (15 / 10)) 0,
           WeightedItemFloat.make (Finite (383 / 100)) 1,
           WeightedItemFloat.make (Finite (97299 / 10000)) 2]"
         "searchCDFFloat [WeightedItemFloat.make (Finite (15 / 10)) 0,
           WeightedItemFloat.make (Finite (383 / 100)) 1,
           WeightedItemFloat.make (Finite (97299 / 10000)) 2]"
         "7 / 8" NaN]
    cdf_int cdf_float sort_key_contract insertionSortFloat_contract
  by blast

text \<open>
  Claim C8.  In the floating-point variant the check inside the accumulation loop reads
  \<^verbatim>\<open>s[0]\<close>, which the loop never writes.  So the loop fails exactly when it runs at least
  once with \<^verbatim>\<open>s[0].Weight <= 0\<close>; once the check before the loop has passed, the branch
  inside the loop cannot be taken, whatever the other weights are; and \<^verbatim>\<open>BuildCDF\<close> returns
  \<open>zeroWeightErr\<close> exactly when the first element after sorting is not positive.  The loop
  variable \<open>i\<close> starts at 1.
\<close>

theorem C8_float_loop_check_reads_first:
  assumes "sort_contract_float srt"
  shows "(1 \<le> i \<longrightarrow>
      snd (accumulateFloat i s1) =
        (if i < length s1 \<and> WeightedItemFloat.Weight (s1 ! 0) \<le> 0
         then Some (New zeroWeightErr) else None))
   \<and> (1 \<le> i \<and> \<not> WeightedItemFloat.Weight (s1 ! 0) \<le> 0 \<longrightarrow> snd (accumulateFloat i s1) = None)
   \<and> (snd (BuildCDFFloat srt s) = Inl (New zeroWeightErr)
        \<longleftrightarrow> s \<noteq> [] \<and> WeightedItemFloat.Weight (srt s ! 0) \<le> 0)"
proof -
  have "snd (BuildCDFFloat srt s) = Inl (New zeroWeightErr)
        \<longleftrightarrow> s \<noteq> [] \<and> WeightedItemFloat.Weight (srt s ! 0) \<le> 0"
  proof (cases "s = []")
    case True
    then show ?thesis using err_distinct by (simp add: BuildCDFFloat_empty)
  next
    case False
    then show ?thesis by (simp add: BuildCDFFloat_nonempty)
  qed
  then show ?thesis
    using accumulateFloat_err [of i s1] accumulateFloat_ok [of i s1] by simp
qed

theorem C8_float_loop_check_reads_first_witness:
  "sort_contract_float insertionSortFloat
   \<and> (1::nat) \<le> 1
   \<and> \<not> WeightedItemFloat.Weight
         ([WeightedItemFloat.make (Finite 1) 0, WeightedItemFloat.make (Finite (- 5)) 1,
           WeightedItemFloat.make (Finite 2) 2] ! 0) \<le> 0
   \<and> snd (accumulateFloat 1
         [WeightedItemFloat.make (Finite 1) 0, WeightedItemFloat.make (Finite (- 5)) 1,
          WeightedItemFloat.make (Finite 2) 2]) = None
   \<and> snd (BuildCDFFloat insertionSortFloat
         [WeightedItemFloat.make (Finite (37473 / 10000)) 0, WeightedItemFloat.make (Finite 0) 1,
          WeightedItemFloat.make (Finite (1373 / 1000)) 2]) = Inl (New zeroWeightErr)"
  using C8_float_loop_check_reads_first [OF insertionSortFloat_contract, of 1
      "[WeightedItemFloat.make (Finite 1) 0, WeightedItemFloat.make (Finite (- 5)) 1,
        WeightedItemFloat.make (Finite 2) 2]"
      "[WeightedItemFloat.make (Finite (37473 / 10000)) 0, WeightedItemFloat.make (Finite 0) 1,
        WeightedItemFloat.make (Finite (1373 / 1000)) 2]"]
    insertionSortFloat_contract
  by (simp add: WeightedItemFloat.defs insertionSortFloat_def LessFloat_def zero_float64_def)

text \<open>
  Claim C9.  When \<^verbatim>\<open>BuildCDF\<close> on integer weights returns the error \<open>zeroWeightErr\<close>, the
  caller's slice is the sorted slice: a permutation of the items supplied, in ascending
  order of weight, with every weight at its original value.  No weight has been replaced by
  a running sum.
\<close>

theorem C9_error_leaves_sorted_input:
  assumes "sort_contract srt"
    and "snd (BuildCDF srt s) = Inl (New zeroWeightErr)"
  shows "fst (BuildCDF srt s) = srt s
       \<and> mset (fst (BuildCDF srt s)) = mset s
       \<and> sorted (map WeightedItem.Weight (fst (BuildCDF srt s)))
       \<and> map WeightedItem.Weight (fst (BuildCDF srt s)) = sort (map WeightedItem.Weight s)"
proof -
  have "fst (BuildCDF srt s) = srt s"
    using BuildCDF_zeroWeightErr [OF assms] by simp
  then show ?thesis
    using sort_contract_mset [OF assms(1), of s] sort_contract_sorted [OF assms(1), of s]
      sort_contract_weights [OF assms(1), of s]
    by simp
qed

theorem C9_error_leaves_sorted_input_witness:
  "sort_contract (sort_key WeightedItem.Weight)
   \<and> snd (BuildCDF (sort_key WeightedItem.Weight)
            [WeightedItem.make 5 0, WeightedItem.make 0 1, WeightedItem.make 3 2])
       = Inl (New zeroWeightErr)
   \<and> fst (BuildCDF (sort_key WeightedItem.Weight)
            [WeightedItem.make 5 0, WeightedItem.make 0 1, WeightedItem.make 3 2])
       = [WeightedItem.make 0 1, WeightedItem.make 3 2, WeightedItem.make 5 0]
   \<and> map WeightedItem.Weight (fst (BuildCDF (sort_key WeightedItem.Weight)
            [WeightedItem.make 5 0, WeightedItem.make 0 1, WeightedItem.make 3 2]))
       = sort [5, 0, 3]"
proof -
  have e: "snd (BuildCDF (sort_key WeightedItem.Weight)
            [WeightedItem.make 5 0, WeightedItem.make 0 1, WeightedItem.make 3 2])
       = Inl (New zeroWeightErr)"
    by (simp add: BuildCDF_def WeightedItem.defs)
  show ?thesis
    using C9_error_leaves_sorted_input [OF sort_key_contract e] e sort_key_contract
    by (simp add: WeightedItem.defs)
qed

text \<open>
  Claim C10, amended.  When the weights are positive and their sum is below \<open>2\<^sup>6\<^sup>3\<close>, so
  that no running sum wraps around, \<^verbatim>\<open>BuildCDF\<close> succeeds, the argument of \<^verbatim>\<open>Intn\<close> (the
  last entry of the slice) is the sum of the weights and at least 1, and no call of the draw
  function panics: the
  number is drawn, every position read by the binary search is within the slice, and an
  index is returned.  The binary search stays within the slice for any number whatever.
\<close>

theorem C10_draw_never_panics:
  assumes "sort_contract srt" and "s \<noteq> []" and "\<forall>x\<in>set s. 0 < WeightedItem.Weight x"
    and "sum_list (map WeightedItem.Weight s) < 2 ^ 63"
  shows "(\<exists>f. snd (BuildCDF srt s) = Inr f \<and> (\<forall>r. \<exists>v. f r = Some (Inr v)))
       \<and> WeightedItem.Weight (fst (BuildCDF srt s) ! (length (fst (BuildCDF srt s)) - 1))
           = sum_list (map WeightedItem.Weight s)
       \<and> 1 \<le> WeightedItem.Weight (fst (BuildCDF srt s) ! (length (fst (BuildCDF srt s)) - 1))
       \<and> (\<forall>r. \<exists>num. pickNum (fst (BuildCDF srt s)) r = Inr num)
       \<and> (\<forall>num. \<exists>v. searchNum (fst (BuildCDF srt s)) num = Some (Inr v))"
proof -
  let ?s' = "fst (BuildCDF srt s)"
  have len: "length ?s' = length s" by (rule BuildCDF_length [OF assms(1,2,3)])
  then have ne: "?s' \<noteq> []" using assms(2) by auto
  have "0 < sum_list (map WeightedItem.Weight s)"
    using assms(2,3) by (intro sum_list_pos_int) simp_all
  have sum: "WeightedItem.Weight (?s' ! (length ?s' - 1)) = sum_list (map WeightedItem.Weight s)"
    using BuildCDF_total [OF assms] len by simp
  have total: "1 \<le> WeightedItem.Weight (?s' ! (length ?s' - 1))"
    using \<open>0 < sum_list (map WeightedItem.Weight s)\<close> sum by simp
  have pick: "\<exists>num. pickNum ?s' r = Inr num" for r
    using total ne by (simp add: pickNum_pos)
  have search: "\<exists>v. searchNum ?s' num = Some (Inr v)" for num
    using searchNum_returns [OF ne, of num] by auto
  have draw: "\<exists>v. searchCDF ?s' r = Some (Inr v)" for r
  proof -
    obtain num where "pickNum ?s' r = Inr num" using pick by blast
    then show ?thesis using search [of num] by (simp add: searchCDF_def)
  qed
  have "snd (BuildCDF srt s) = Inr (searchCDF ?s')"
    using BuildCDF_pos [OF assms(1,2,3)] by simp
  then show ?thesis using sum total pick search draw by blast
qed

theorem C10_draw_never_panics_witness:
  "sort_contract (sort_key WeightedItem.Weight)
   \<and> buildWeightedArray \<noteq> []
   \<and> list_all (\<lambda>x. 0 < WeightedItem.Weight x) buildWeightedArray
   \<and> sum_list (map WeightedItem.Weight buildWeightedArray) < 2 ^ 63
   \<and> (\<exists>f. snd (BuildCDF (sort_key WeightedItem.Weight) buildWeightedArray) = Inr f
          \<and> (\<forall>r. \<exists>v. f r = Some (Inr v)))
   \<and> 1 \<le> WeightedItem.Weight (fst (BuildCDF (sort_key WeightedItem.Weight) buildWeightedArray)
            ! (length (fst (BuildCDF (sort_key WeightedItem.Weight) buildWeightedArray)) - 1))"
proof -
  have h: "buildWeightedArray \<noteq> []" "\<forall>x\<in>set buildWeightedArray. 0 < WeightedItem.Weight x"
    "sum_list (map WeightedItem.Weight buildWeightedArray) < 2 ^ 63"
    by (simp_all add: buildWeightedArray_def WeightedItem.defs)
  have p: "list_all (\<lambda>x. 0 < WeightedItem.Weight x) buildWeightedArray"
    using h(2) by (simp add: list_all_iff)
  show ?thesis
    using C10_draw_never_panics [OF sort_key_contract h] h(1,3) p sort_key_contract by blast
qed

text \<open>
  As stated, for every distribution built with success, the claim fails when a running sum
  wraps around: for the two weights \<open>2\<^sup>6\<^sup>2\<close> the build succeeds, the last entry, the
  argument of \<^verbatim>\<open>Intn\<close>, is \<open>- 2\<^sup>6\<^sup>3\<close>, and the call of the draw function panics.
\<close>

theorem C10_overflow_counterexample:
  "BuildCDF (sort_key WeightedItem.Weight)
       [WeightedItem.make (2 ^ 62) 0, WeightedItem.make (2 ^ 62) 1] =
     ([WeightedItem.make (2 ^ 62) 0, WeightedItem.make (- (2 ^ 63)) 1],
      Inr (searchCDF [WeightedItem.make (2 ^ 62) 0, WeightedItem.make (- (2 ^ 63)) 1]))
   \<and> searchCDF [WeightedItem.make (2 ^ 62) 0, WeightedItem.make (- (2 ^ 63)) 1] 0
       = Some (Inl InvalidArgumentToIntn)"
  by (simp add: BuildCDF_def accumulate.simps wrap64_def searchCDF_def pickNum_def Intn_def
      WeightedItem.defs)

end
